theory Spec2Isabelle
  imports Main "HOL-Library.Word" "HOL-Library.Monad_Syntax"
begin

section \<open>Machine types\<close>

text \<open>
  Go's \<open>uint8\<close> is an 8-bit word and Go's \<open>uint\<close> a 64-bit word: additions wrap.
  Slice indices (\<open>left\<close>, \<open>right\<close>, \<open>middle\<close>) never exceed the length of a slice,
  so they are natural numbers.
\<close>

type_synonym uint8 = "8 word"
type_synonym uint = "64 word"

section \<open>The statistics: \<open>sum\<close>, \<open>median\<close>, \<open>avarage\<close>\<close>

text \<open>\<open>values[low:high:high]\<close> for \<open>low \<le> high \<le> len(values)\<close>.\<close>

definition sub_slice :: "'a list \<Rightarrow> nat \<Rightarrow> nat \<Rightarrow> 'a list" where
  "sub_slice values low high = take (high - low) (drop low values)"

text \<open>\<open>func sum(values []uint8) uint\<close>: the accumulator is a \<open>uint\<close>.\<close>

definition sum_values :: "uint8 list \<Rightarrow> uint" where
  "sum_values values = foldl (\<lambda>s v. s + ucast v) 0 values"

text \<open>
  The variables of the loop of \<open>median\<close>, and one pass through its body: either the
  function returns \<open>uint8(left)\<close> (\<open>Inl left\<close>) or the loop goes on with new variables.
\<close>

record median_vars =
  left :: nat
  right :: nat
  leftSumPrev :: uint
  rightSumPrev :: uint

definition median_body :: "uint8 list \<Rightarrow> median_vars \<Rightarrow> nat + median_vars" where
  "median_body hist s =
     (let middle = (left s + right s) div 2 in
      if left s \<noteq> middle then
        (let leftSum = sum_values (sub_slice hist (left s) middle);
             rightSum = sum_values (sub_slice hist middle (right s)) in
         if leftSumPrev s + leftSum > rightSum + rightSumPrev s then
           Inr (s\<lparr>right := middle, rightSumPrev := rightSumPrev s + rightSum\<rparr>)
         else if leftSumPrev s + leftSum < rightSum + rightSumPrev s then
           Inr (s\<lparr>left := middle, leftSumPrev := leftSumPrev s + leftSum\<rparr>)
         else
           Inr (s\<lparr>left := middle\<rparr>))
      else Inl (left s))"

text \<open>
  The loop \<open>for left < right { ... }\<close>. \<open>Some l\<close>: the body returned \<open>uint8(l)\<close>;
  \<open>None\<close>: the loop condition failed and the function goes on to \<open>return 0\<close>.
\<close>

function median_loop :: "uint8 list \<Rightarrow> median_vars \<Rightarrow> nat option" where
  "median_loop hist s =
     (if left s < right s then
        (case median_body hist s of
           Inl l \<Rightarrow> Some l
         | Inr s' \<Rightarrow> median_loop hist s')
      else None)"
  by pat_completeness auto
termination
proof (relation "measure (\<lambda>(hist, s). right s - left s)", goal_cases)
  case 1
  show ?case by simp
next
  case (2 hist s s')
  let ?m = "(left s + right s) div 2"
  from 2(2) have ne: "left s \<noteq> ?m"
    by (auto simp: median_body_def Let_def split: if_splits)
  with 2(1) have "left s < ?m" "?m < right s" by linarith+
  with 2(2) ne show ?case
    by (auto simp: median_body_def Let_def split: if_splits)
qed

declare median_loop.simps [simp del]

definition median :: "uint8 list \<Rightarrow> uint8" where
  "median hist =
     (case median_loop hist \<lparr>left = 0, right = length hist, leftSumPrev = 0, rightSumPrev = 0\<rparr> of
        Some l \<Rightarrow> of_nat l
      | None \<Rightarrow> 0)"

text \<open>
  The bisection procedure as the specification words it (section 4.4), on counts that
  are natural numbers and with \<open>right\<close> starting at the number of bins: the value with
  which it terminates is \<open>left\<close>. Where the loop ends without having returned (no
  bins at all) the value is \<open>left\<close> as well.
\<close>

function spec_bisect :: "nat list \<Rightarrow> nat \<Rightarrow> nat \<Rightarrow> nat \<Rightarrow> nat \<Rightarrow> nat" where
  "spec_bisect bins l r lp rp =
     (if l < r then
        (let middle = (l + r) div 2 in
         if l = middle then l
         else
           (let leftSum = sum_list (sub_slice bins l middle);
                rightSum = sum_list (sub_slice bins middle r) in
            if lp + leftSum > rp + rightSum then spec_bisect bins l middle lp (rp + rightSum)
            else if lp + leftSum < rp + rightSum then spec_bisect bins middle r (lp + leftSum) rp
            else spec_bisect bins middle r lp rp))
      else l)"
  by pat_completeness auto
termination
  by (relation "measure (\<lambda>(bins, l, r, lp, rp). r - l)") auto

declare spec_bisect.simps [simp del]

definition median_spec :: "nat list \<Rightarrow> nat" where
  "median_spec bins = spec_bisect bins 0 (length bins) 0 0"

text \<open>
  \<open>func avarage(hist []uint8, size int) uint8\<close>. The accumulator is a \<open>uint\<close>; the
  divisor \<open>uint(size * size)\<close> is the product of two \<open>int\<close>s, which wraps, read as a
  \<open>uint\<close>; a zero divisor is a run-time panic (\<open>None\<close>). The parameter \<open>size\<close> of the
  source is written \<open>sz\<close> throughout (\<open>size\<close> is a constant of HOL).
\<close>

definition avarage_sum :: "uint8 list \<Rightarrow> uint" where
  "avarage_sum hist =
     foldl (\<lambda>s (i, v). s + of_nat i * ucast v) 0 (zip [0 ..< length hist] hist)"

definition avarage :: "uint8 list \<Rightarrow> int \<Rightarrow> uint8 option" where
  "avarage hist sz =
     (let d = (word_of_int (sz * sz) :: uint) in
      if d = 0 then None else Some (ucast (avarage_sum hist div d)))"

section \<open>Slices, indexing and loops\<close>

text \<open>
  An index or a slice expression out of range is a run-time panic: \<open>None\<close>. The capacity
  of a slice is taken to be its length, as it is for the \<open>Pix\<close> of an image made by
  \<open>image.NewGray\<close> or \<open>SubImage\<close> and for every slice made here.
\<close>

definition index_at :: "'a list \<Rightarrow> int \<Rightarrow> 'a option" where
  "index_at xs i = (if 0 \<le> i \<and> i < int (length xs) then Some (xs ! nat i) else None)"

definition store_at :: "'a list \<Rightarrow> int \<Rightarrow> 'a \<Rightarrow> 'a list option" where
  "store_at xs i v = (if 0 \<le> i \<and> i < int (length xs) then Some (xs[nat i := v]) else None)"

text \<open>\<open>xs[low:high:high]\<close>\<close>

definition slice3 :: "'a list \<Rightarrow> int \<Rightarrow> int \<Rightarrow> 'a list option" where
  "slice3 xs low high =
     (if 0 \<le> low \<and> low \<le> high \<and> high \<le> int (length xs)
      then Some (sub_slice xs (nat low) (nat high)) else None)"

text \<open>\<open>copy(dst, src)\<close>: the contents of \<open>dst\<close> afterwards.\<close>

definition copy_go :: "'a list \<Rightarrow> 'a list \<Rightarrow> 'a list" where
  "copy_go dst src = take (length dst) src @ drop (length src) dst"

text \<open>\<open>copy(dst[off:], src)\<close>: the contents of \<open>dst\<close> afterwards.\<close>

definition copy_from :: "'a list \<Rightarrow> int \<Rightarrow> 'a list \<Rightarrow> 'a list option" where
  "copy_from dst off src =
     (if 0 \<le> off \<and> off \<le> int (length dst)
      then Some (take (nat off) dst @ copy_go (drop (nat off) dst) src) else None)"

text \<open>
  \<open>for i := lo; i < hi; i++\<close> visits \<open>int_range lo hi\<close>; a loop over two counters with a
  conjunction as its condition visits the \<open>zip\<close> of two ranges. The body of a loop
  may panic, which ends the run.
\<close>

definition int_range :: "int \<Rightarrow> int \<Rightarrow> int list" where
  "int_range lo hi = [lo .. hi - 1]"

fun for_each :: "'i list \<Rightarrow> ('i \<Rightarrow> 's \<Rightarrow> 's option) \<Rightarrow> 's \<Rightarrow> 's option" where
  "for_each [] body s = Some s"
| "for_each (i # is) body s =
     (case body i s of None \<Rightarrow> None | Some s' \<Rightarrow> for_each is body s')"

section \<open>The image and the row-window buffer\<close>

text \<open>
  \<open>image.Gray\<close>: \<open>Pix\<close>, \<open>Stride\<close> and \<open>Rect\<close>, whose corners \<open>Rect.Min\<close> and
  \<open>Rect.Max\<close> are written \<open>MinX\<close>, \<open>MinY\<close>, \<open>MaxX\<close>, \<open>MaxY\<close>. Coordinates,
  strides and offsets into \<open>Pix\<close> are Go \<open>int\<close>s; they are far below \<open>2 ^ 63\<close> for an
  image held in memory and are modelled as integers.
\<close>

record Gray =
  Pix :: "uint8 list"
  Stride :: int
  MinX :: int
  MinY :: int
  MaxX :: int
  MaxY :: int

definition setArrayValues :: "uint8 list \<Rightarrow> uint8 \<Rightarrow> uint8 list" where
  "setArrayValues array v = map (\<lambda>_. v) array"

text \<open>
  \<open>newLines\<close>. \<open>make\<close> panics on a negative length. The first loop makes every line
  a copy of line 0, which is all 255; the second loop (its body is \<open>seed_line\<close>)
  copies the first image rows into lines \<open>offLines - 1\<close> down to 0. The lines are
  separate arrays, so a line is modelled by its contents.
\<close>

definition seed_line :: "Gray \<Rightarrow> int \<Rightarrow> int \<times> int \<Rightarrow> uint8 list list \<Rightarrow> uint8 list list option" where
  "seed_line img sz = (\<lambda>(i, y) lines. do {
     let lenImg = MaxX img - MinX img;
     let offLines = sz div 2;
     let offImg = (y - MinY img) * Stride img;
     line \<leftarrow> index_at lines i;
     src \<leftarrow> slice3 (Pix img) offImg (offImg + lenImg);
     line' \<leftarrow> copy_from line offLines src;
     Some (lines[nat i := line'])
   })"

definition newLines :: "Gray \<Rightarrow> int \<Rightarrow> uint8 list list option" where
  "newLines img sz =
     (if sz < 0 then None
      else
        let lenImg = MaxX img - MinX img;
            lenLine = lenImg + sz - 1;
            offLines = sz div 2
        in
          if 0 < sz \<and> lenLine < 0 then None
          else
            for_each (zip (rev (int_range 0 offLines)) (int_range (MinY img) (MaxY img)))
              (seed_line img sz)
              (replicate (nat sz) (setArrayValues (replicate (nat lenLine) 0) 255)))"

text \<open>
  \<open>shiftLines\<close>: \<open>copy(lines[1:], lines[0:len(lines)-1])\<close> moves every line one slot
  towards the end and loses the last one; \<open>lines[1:]\<close> panics on an empty slice.
\<close>

definition shiftLines :: "'a list \<Rightarrow> 'a \<Rightarrow> 'a list option" where
  "shiftLines lines line0 = (if lines = [] then None else Some (line0 # butlast lines))"

text \<open>\<open>hist[idx]++\<close> on \<open>uint8\<close> counters: the addition wraps.\<close>

definition incr_at :: "uint8 list \<Rightarrow> uint8 \<Rightarrow> uint8 list option" where
  "incr_at hist idx =
     (if unat idx < length hist then Some (hist[unat idx := hist ! unat idx + 1]) else None)"

definition fillHistogram ::
  "uint8 list \<Rightarrow> uint8 list \<Rightarrow> uint8 list list \<Rightarrow> int \<Rightarrow> int \<Rightarrow> uint8 list option" where
  "fillHistogram hist histZero lines sz x =
     for_each lines
       (\<lambda>line. for_each (int_range 0 sz)
          (\<lambda>j h. do {
             idx \<leftarrow> index_at line (x + j);
             incr_at h idx
           }))
       (copy_go hist histZero)"

section \<open>The filters\<close>

text \<open>
  The variables a filter changes: the image (only its \<open>Pix\<close>), the lines and the
  histogram. \<open>ToMedian\<close> and \<open>ToAvarage\<close> have the same text up to the statistic they
  store (\<open>stat\<close>) and up to their last loop.
\<close>

record vars =
  the_img :: Gray
  the_lines :: "uint8 list list"
  the_hist :: "uint8 list"

text \<open>
  \<open>fillHistogram(hist, histZero, lines, int(size), x)\<close> and
  \<open>img.Pix[offImg+x-img.Rect.Min.X] = stat(hist)\<close>
\<close>

definition pixel ::
  "(uint8 list \<Rightarrow> uint8 option) \<Rightarrow> int \<Rightarrow> int \<Rightarrow> int \<Rightarrow> vars \<Rightarrow> vars option" where
  "pixel stat sz offImg x s = do {
     h \<leftarrow> fillHistogram (the_hist s) (replicate 256 0) (the_lines s) sz x;
     v \<leftarrow> stat h;
     p \<leftarrow> store_at (Pix (the_img s)) (offImg + x - MinX (the_img s)) v;
     Some (s\<lparr>the_img := (the_img s)\<lparr>Pix := p\<rparr>, the_hist := h\<rparr>)
   }"

text \<open>
  The body of the first loop over \<open>y\<close> (the same in both filters). It starts with
  the advance of the buffer: image row \<open>y + offLines\<close> is copied into the last line,
  behind \<open>offLines\<close> bytes of padding, and \<open>shiftLines(lines, lines[idxLastLine])\<close>
  moves that line to the front.
\<close>

definition load_line :: "int \<Rightarrow> int \<Rightarrow> vars \<Rightarrow> vars option" where
  "load_line sz y s = do {
     let lenImg = MaxX (the_img s) - MinX (the_img s);
     let offLines = sz div 2;
     let idxLastLine = int (length (the_lines s)) - 1;
     let offImg = (y - MinY (the_img s)) * Stride (the_img s);
     let offImgNew = offImg + offLines * Stride (the_img s);
     lastLine \<leftarrow> index_at (the_lines s) idxLastLine;
     src \<leftarrow> slice3 (Pix (the_img s)) offImgNew (offImgNew + lenImg);
     lastLine' \<leftarrow> copy_from lastLine offLines src;
     shifted \<leftarrow> shiftLines ((the_lines s)[nat idxLastLine := lastLine']) lastLine';
     Some (s\<lparr>the_lines := shifted\<rparr>)
   }"

definition main_row ::
  "(uint8 list \<Rightarrow> uint8 option) \<Rightarrow> int \<Rightarrow> int \<Rightarrow> vars \<Rightarrow> vars option" where
  "main_row stat sz y s = do {
     let offImg = (y - MinY (the_img s)) * Stride (the_img s);
     s' \<leftarrow> load_line sz y s;
     for_each (int_range (MinX (the_img s)) (MaxX (the_img s))) (pixel stat sz offImg) s'
   }"

text \<open>The rows of the first loop and of the last loop: \<open>limit\<close> separates them.\<close>

definition limit :: "Gray \<Rightarrow> int \<Rightarrow> int" where
  "limit g sz = MaxY g - sz div 2"

definition main_rows :: "Gray \<Rightarrow> int \<Rightarrow> int list" where
  "main_rows g sz = int_range (MinY g) (limit g sz)"

definition tail_rows :: "Gray \<Rightarrow> int \<Rightarrow> int list" where
  "tail_rows g sz = int_range (limit g sz) (MaxY g)"

text \<open>
  \<open>whiteLine := lines[idxLastLine]; setArrayValues(whiteLine, 255)\<close>: the last line
  becomes white. No line is written after that, so the \<open>whiteLine\<close> that
  \<open>shiftLines\<close> then puts into several slots is this value.
\<close>

definition whiten :: "vars \<Rightarrow> (uint8 list \<times> vars) option" where
  "whiten s = do {
     let idxLastLine = int (length (the_lines s)) - 1;
     lastLine \<leftarrow> index_at (the_lines s) idxLastLine;
     let whiteLine = setArrayValues lastLine 255;
     Some (whiteLine, s\<lparr>the_lines := (the_lines s)[nat idxLastLine := whiteLine]\<rparr>)
   }"

text \<open>The advance of the last loop: \<open>shiftLines(lines, whiteLine)\<close>.\<close>

definition white_line :: "uint8 list \<Rightarrow> vars \<Rightarrow> vars option" where
  "white_line whiteLine s = do {
     shifted \<leftarrow> shiftLines (the_lines s) whiteLine;
     Some (s\<lparr>the_lines := shifted\<rparr>)
   }"

text \<open>
  The body of the last loop of \<open>ToAvarage\<close>, over \<open>y\<close>, and the body of the last
  loop of \<open>ToMedian\<close>, over \<open>y\<close> and \<open>x\<close> together.
\<close>

definition tail_row ::
  "(uint8 list \<Rightarrow> uint8 option) \<Rightarrow> int \<Rightarrow> uint8 list \<Rightarrow> int \<Rightarrow> vars \<Rightarrow> vars option" where
  "tail_row stat sz whiteLine y s = do {
     let offImg = (y - MinY (the_img s)) * Stride (the_img s);
     s' \<leftarrow> white_line whiteLine s;
     for_each (int_range (MinX (the_img s)) (MaxX (the_img s))) (pixel stat sz offImg) s'
   }"

definition tail_pixel ::
  "(uint8 list \<Rightarrow> uint8 option) \<Rightarrow> int \<Rightarrow> uint8 list \<Rightarrow> int \<times> int \<Rightarrow> vars \<Rightarrow> vars option" where
  "tail_pixel stat sz whiteLine = (\<lambda>(y, x) s. do {
     let offImg = (y - MinY (the_img s)) * Stride (the_img s);
     s' \<leftarrow> white_line whiteLine s;
     pixel stat sz offImg x s'
   })"

text \<open>
  The filters. \<open>size\<close> is a \<open>uint\<close> and \<open>int(size)\<close> its signed reading; Go's division
  truncates, which is \<open>div\<close> on the values that get past \<open>newLines\<close>.
\<close>

definition ToMedian :: "Gray \<Rightarrow> uint \<Rightarrow> Gray option" where
  "ToMedian g size_u =
     (if (MaxX g - MinX g) * (MaxY g - MinY g) > 0 \<and> size_u > 1 then do {
        let sz = sint size_u;
        let stat = (\<lambda>h. Some (median h));
        lines0 \<leftarrow> newLines g sz;
        s1 \<leftarrow> for_each (main_rows g sz) (main_row stat sz)
                \<lparr>the_img = g, the_lines = lines0, the_hist = replicate 256 0\<rparr>;
        (whiteLine, s2) \<leftarrow> whiten s1;
        s3 \<leftarrow> for_each (zip (tail_rows g sz) (int_range (MinX g) (MaxX g)))
                (tail_pixel stat sz whiteLine) s2;
        Some (the_img s3)
      }
      else Some g)"

definition ToAvarage :: "Gray \<Rightarrow> uint \<Rightarrow> Gray option" where
  "ToAvarage g size_u =
     (if (MaxX g - MinX g) * (MaxY g - MinY g) > 0 \<and> size_u > 1 then do {
        let sz = sint size_u;
        let stat = (\<lambda>h. avarage h sz);
        lines0 \<leftarrow> newLines g sz;
        s1 \<leftarrow> for_each (main_rows g sz) (main_row stat sz)
                \<lparr>the_img = g, the_lines = lines0, the_hist = replicate 256 0\<rparr>;
        (whiteLine, s2) \<leftarrow> whiten s1;
        s3 \<leftarrow> for_each (tail_rows g sz) (tail_row stat sz whiteLine) s2;
        Some (the_img s3)
      }
      else Some g)"

section \<open>Quantities of the specification and invariants\<close>

text \<open>The sum of bin index times bin count over the bins of a histogram.\<close>

definition weighted_sum :: "uint8 list \<Rightarrow> nat" where
  "weighted_sum hist = (\<Sum>i<length hist. i * unat (hist ! i))"

text \<open>
  The offset of the pixel \<open>(x, y)\<close> in \<open>Pix\<close>, and what a filter may change of an
  image: nothing but the bytes of \<open>Pix\<close> at the offsets of pixels inside \<open>Rect\<close>.
\<close>

definition pixel_offset :: "Gray \<Rightarrow> int \<Rightarrow> int \<Rightarrow> int" where
  "pixel_offset g x y = (y - MinY g) * Stride g + (x - MinX g)"

definition frame :: "Gray \<Rightarrow> Gray \<Rightarrow> bool" where
  "frame g g' \<longleftrightarrow>
     Stride g' = Stride g \<and> MinX g' = MinX g \<and> MinY g' = MinY g
     \<and> MaxX g' = MaxX g \<and> MaxY g' = MaxY g
     \<and> length (Pix g') = length (Pix g)
     \<and> (\<forall>k < length (Pix g).
          (\<forall>x y. MinX g \<le> x \<and> x < MaxX g \<and> MinY g \<le> y \<and> y < MaxY g
                  \<longrightarrow> int k \<noteq> pixel_offset g x y)
          \<longrightarrow> Pix g' ! k = Pix g ! k)"

text \<open>
  The image as the window sees it. \<open>image_row\<close> is row \<open>r\<close> of the image, white
  outside the image; \<open>padded_row\<close> is that row with \<open>half\<close> white cells before it
  and \<open>size - 1 - half\<close> after it; \<open>window_rows g sz y\<close> is the buffer for output row
  \<open>y\<close>: slot \<open>i\<close> holds the padded row \<open>y + half - i\<close>.
\<close>

definition image_row :: "Gray \<Rightarrow> int \<Rightarrow> uint8 list" where
  "image_row g r =
     (if MinY g \<le> r \<and> r < MaxY g
      then sub_slice (Pix g) (nat ((r - MinY g) * Stride g))
             (nat ((r - MinY g) * Stride g + (MaxX g - MinX g)))
      else replicate (nat (MaxX g - MinX g)) 255)"

definition padded_row :: "Gray \<Rightarrow> int \<Rightarrow> int \<Rightarrow> uint8 list" where
  "padded_row g sz r =
     replicate (nat (sz div 2)) 255 @ image_row g r @ replicate (nat (sz - 1 - sz div 2)) 255"

definition window_rows :: "Gray \<Rightarrow> int \<Rightarrow> int \<Rightarrow> uint8 list list" where
  "window_rows g sz y = map (\<lambda>i. padded_row g sz (y + sz div 2 - int i)) [0 ..< nat sz]"

text \<open>
  An image as \<open>image.NewGray\<close> and \<open>SubImage\<close> make it: not empty, \<open>Stride\<close> at least
  the width, and \<open>Pix\<close> long enough for the last row.
\<close>

definition well_formed :: "Gray \<Rightarrow> bool" where
  "well_formed g \<longleftrightarrow>
     0 < MaxX g - MinX g \<and> 0 < MaxY g - MinY g \<and> MaxX g - MinX g \<le> Stride g
     \<and> (MaxY g - MinY g - 1) * Stride g + (MaxX g - MinX g) \<le> int (length (Pix g))"

text \<open>
  While the first loop is at row \<open>y\<close>: \<open>Rect\<close> and \<open>Stride\<close> are those of the image at
  the start, and so are the bytes of \<open>Pix\<close> from row \<open>y\<close> on.
\<close>

definition ahead :: "Gray \<Rightarrow> int \<Rightarrow> vars \<Rightarrow> bool" where
  "ahead g y s \<longleftrightarrow>
     MinX (the_img s) = MinX g \<and> MinY (the_img s) = MinY g
     \<and> MaxX (the_img s) = MaxX g \<and> MaxY (the_img s) = MaxY g
     \<and> Stride (the_img s) = Stride g
     \<and> length (Pix (the_img s)) = length (Pix g)
     \<and> (\<forall>k < length (Pix g). (y - MinY g) * Stride g \<le> int k
           \<longrightarrow> Pix (the_img s) ! k = Pix g ! k)"

text \<open>The white line of the last loop.\<close>

definition white_row :: "Gray \<Rightarrow> int \<Rightarrow> uint8 list" where
  "white_row g sz = replicate (nat (MaxX g - MinX g + sz - 1)) 255"

text \<open>
  Before an advance of the last loop for row \<open>y\<close>, all lines but the last hold the rows
  of the window of row \<open>y - 1\<close>.
\<close>

definition before_tail :: "Gray \<Rightarrow> int \<Rightarrow> int \<Rightarrow> uint8 list list \<Rightarrow> bool" where
  "before_tail g sz y ls \<longleftrightarrow>
     length ls = nat sz
     \<and> (\<forall>i. Suc i < nat sz \<longrightarrow> ls ! i = padded_row g sz (y - 1 + sz div 2 - int i))"

section \<open>Properties of \<open>median\<close>\<close>

lemma sub_slice_map: "sub_slice (map f xs) l r = map f (sub_slice xs l r)"
  by (simp add: sub_slice_def take_map drop_map)

lemma sub_slice_split:
  assumes "l \<le> m" "m \<le> r"
  shows "sub_slice xs l r = sub_slice xs l m @ sub_slice xs m r"
proof -
  from assms have eq: "r - l = (m - l) + (r - m)" by simp
  show ?thesis
    unfolding sub_slice_def eq take_add using assms by simp
qed

lemma sub_slice_all: "sub_slice xs 0 (length xs) = xs"
  by (simp add: sub_slice_def)

lemma sum_values_foldl:
  "foldl (\<lambda>s v. s + ucast v) (a::uint) (xs::uint8 list) = a + of_nat (sum_list (map unat xs))"
  by (induction xs arbitrary: a) (simp_all add: add.assoc)

lemma sum_values_of_nat: "sum_values xs = of_nat (sum_list (map unat xs))"
  by (simp add: sum_values_def sum_values_foldl)

lemma unat_sum_values:
  "sum_list (map unat xs) < 2 ^ 64 \<Longrightarrow> unat (sum_values xs) = sum_list (map unat xs)"
  by (simp add: sum_values_of_nat unat_of_nat)

lemma unat_uint8_le: "unat (v::uint8) \<le> 255"
  using unsigned_less [of v, where 'a = nat] by simp

lemma sum_list_uint8_le: "sum_list (map unat (xs::uint8 list)) \<le> 255 * length xs"
  by (induction xs) (use unat_uint8_le in \<open>auto simp: add_mono\<close>)

text \<open>One pass through the body narrows the interval and leaves it non-empty.\<close>

lemma median_body_shrinks:
  assumes "left s < right s" and "median_body hist s = Inr s'"
  shows "left s \<le> left s' \<and> left s' < right s' \<and> right s' \<le> right s
         \<and> right s' - left s' < right s - left s"
proof -
  let ?m = "(left s + right s) div 2"
  from assms(2) have ne: "left s \<noteq> ?m"
    by (auto simp: median_body_def Let_def split: if_splits)
  with assms(1) have "left s < ?m" "?m < right s" by linarith+
  with assms(2) ne show ?thesis
    by (auto simp: median_body_def Let_def split: if_splits)
qed

lemma median_body_returns_left: "median_body hist s = Inl l \<Longrightarrow> l = left s"
  by (auto simp: median_body_def Let_def split: if_splits)

text \<open>From a non-empty interval the loop always ends in the \<open>return\<close> of its body.\<close>

lemma median_loop_returns:
  "left s < right s \<Longrightarrow> \<exists>l. median_loop hist s = Some l \<and> left s \<le> l \<and> l < right s"
proof (induction "right s - left s" arbitrary: s rule: less_induct)
  case less
  show ?case
  proof (cases "median_body hist s")
    case (Inl l)
    with less.prems median_body_returns_left [OF Inl] show ?thesis
      by (simp add: median_loop.simps [of hist s])
  next
    case (Inr s')
    note sh = median_body_shrinks [OF less.prems Inr]
    with less.hyps [of s'] obtain l where
      "median_loop hist s' = Some l" "left s' \<le> l" "l < right s'" by auto
    with sh Inr less.prems show ?thesis
      by (simp add: median_loop.simps [of hist s])
  qed
qed

text \<open>
  As long as the sums cannot wrap, the loop of the code computes the procedure of the
  specification.
\<close>

lemma median_loop_refines:
  fixes hist :: "uint8 list"
  assumes T: "sum_list (map unat hist) < 2 ^ 64"
  shows "unat lp + unat rp + sum_list (map unat (sub_slice hist l r)) \<le> sum_list (map unat hist) \<Longrightarrow>
     median_loop hist \<lparr>left = l, right = r, leftSumPrev = lp, rightSumPrev = rp\<rparr> =
       (if l < r then Some (spec_bisect (map unat hist) l r (unat lp) (unat rp)) else None)"
proof (induction "r - l" arbitrary: l r lp rp rule: less_induct)
  case less
  let ?T = "sum_list (map unat hist)"
  let ?m = "(l + r) div 2"
  let ?LS = "sum_list (map unat (sub_slice hist l ?m))"
  let ?RS = "sum_list (map unat (sub_slice hist ?m r))"
  show ?case
  proof (cases "l < r")
    case False
    then show ?thesis by (simp add: median_loop.simps)
  next
    case lr: True
    show ?thesis
    proof (cases "l = ?m")
      case True
      then show ?thesis using lr
        by (subst median_loop.simps, subst spec_bisect.simps) (simp add: median_body_def Let_def)
    next
      case ne: False
      with lr have lm: "l < ?m" and mr: "?m < r" by linarith+
      have split: "sum_list (map unat (sub_slice hist l r)) = ?LS + ?RS"
        using sub_slice_split [of l ?m r hist] lm mr by simp
      with less.prems have inv: "unat lp + unat rp + ?LS + ?RS \<le> ?T" by simp
      have uls: "unat (sum_values (sub_slice hist l ?m)) = ?LS"
        using inv T by (intro unat_sum_values) linarith
      have urs: "unat (sum_values (sub_slice hist ?m r)) = ?RS"
        using inv T by (intro unat_sum_values) linarith
      have ul: "unat (lp + sum_values (sub_slice hist l ?m)) = unat lp + ?LS"
      proof -
        have "unat lp + unat (sum_values (sub_slice hist l ?m)) < 2 ^ 64"
          using inv T uls by linarith
        then show ?thesis using uls by (simp add: unat_add_lem [THEN iffD1])
      qed
      have ur: "unat (sum_values (sub_slice hist ?m r) + rp) = unat rp + ?RS"
      proof -
        have "unat (sum_values (sub_slice hist ?m r)) + unat rp < 2 ^ 64"
          using inv T urs by linarith
        then show ?thesis using urs by (simp add: unat_add_lem [THEN iffD1])
      qed
      have ur': "unat (rp + sum_values (sub_slice hist ?m r)) = unat rp + ?RS"
        using ur by (simp add: add.commute)
      have A: "median_loop hist \<lparr>left = l, right = ?m, leftSumPrev = lp,
                 rightSumPrev = rp + sum_values (sub_slice hist ?m r)\<rparr> =
               Some (spec_bisect (map unat hist) l ?m (unat lp) (unat rp + ?RS))"
        using less.hyps [of ?m l lp "rp + sum_values (sub_slice hist ?m r)"] lm mr inv ur'
        by simp
      have B: "median_loop hist \<lparr>left = ?m, right = r,
                 leftSumPrev = lp + sum_values (sub_slice hist l ?m), rightSumPrev = rp\<rparr> =
               Some (spec_bisect (map unat hist) ?m r (unat lp + ?LS) (unat rp))"
        using less.hyps [of r ?m "lp + sum_values (sub_slice hist l ?m)" rp] lm mr inv ul
        by simp
      have C: "median_loop hist \<lparr>left = ?m, right = r, leftSumPrev = lp, rightSumPrev = rp\<rparr> =
               Some (spec_bisect (map unat hist) ?m r (unat lp) (unat rp))"
        using less.hyps [of r ?m lp rp] lm mr inv
        by simp
      show ?thesis
        using lr ne A B C
        by (subst median_loop.simps, subst spec_bisect.simps)
           (simp add: median_body_def Let_def word_less_nat_alt ul ur ur' sub_slice_map)
    qed
  qed
qed

lemma spec_bisect_bounds:
  "l < r \<Longrightarrow> l \<le> spec_bisect bins l r lp rp \<and> spec_bisect bins l r lp rp < r"
proof (induction "r - l" arbitrary: l r lp rp rule: less_induct)
  case less
  let ?m = "(l + r) div 2"
  note unf = spec_bisect.simps [of bins l r lp rp]
  show ?case
  proof (cases "l = ?m")
    case True
    with less.prems show ?thesis by (simp add: unf)
  next
    case False
    with less.prems have lm: "l < ?m" "?m < r" by linarith+
    have L: "l \<le> spec_bisect bins l ?m a b \<and> spec_bisect bins l ?m a b < r" for a b
      using less.hyps [of ?m l a b] lm by force
    have R: "l \<le> spec_bisect bins ?m r a b \<and> spec_bisect bins ?m r a b < r" for a b
      using less.hyps [of r ?m a b] lm by force
    from False less.prems L R show ?thesis
      by (simp add: unf Let_def)
  qed
qed

lemma median_spec_less: "bins \<noteq> [] \<Longrightarrow> median_spec bins < length bins"
  using spec_bisect_bounds [of 0 "length bins" bins 0 0] by (simp add: median_spec_def)

lemma median_eq_spec:
  fixes hist :: "uint8 list"
  assumes "length hist < 2 ^ 56"
  shows "median hist = of_nat (median_spec (map unat hist))"
proof -
  have "sum_list (map unat hist) \<le> 255 * length hist" by (rule sum_list_uint8_le)
  also have "\<dots> < 255 * 2 ^ 56" using assms by simp
  also have "\<dots> < (2::nat) ^ 64" by simp
  finally have T: "sum_list (map unat hist) < 2 ^ 64" .
  have "median_loop hist \<lparr>left = 0, right = length hist, leftSumPrev = 0, rightSumPrev = 0\<rparr> =
        (if 0 < length hist
         then Some (spec_bisect (map unat hist) 0 (length hist) (unat (0::uint)) (unat (0::uint)))
         else None)"
    by (rule median_loop_refines [OF T]) (simp add: sub_slice_all)
  then show ?thesis
    by (cases "hist = []") (simp_all add: median_def median_spec_def spec_bisect.simps [of "[]"])
qed

lemma median_unat_eq_spec:
  fixes hist :: "uint8 list"
  assumes "length hist \<le> 256"
  shows "unat (median hist) = median_spec (map unat hist)"
proof (cases "hist = []")
  case True
  then show ?thesis
    by (simp add: median_def median_spec_def spec_bisect.simps [of "[]"] median_loop.simps)
next
  case False
  from assms have "length hist < 2 ^ 56" by simp
  then have eq: "median hist = of_nat (median_spec (map unat hist))" by (rule median_eq_spec)
  from False median_spec_less [of "map unat hist"] assms
  have "median_spec (map unat hist) < 256" by simp
  then show ?thesis by (simp add: eq unat_of_nat)
qed

text \<open>
  C1. For every histogram, whatever its number of bins, \<open>median\<close> returns the value
  with which the bisection procedure of section 4.4 of the specification terminates:
  \<open>left = 0\<close>, \<open>right\<close> the number of bins, return of \<open>left\<close> when it equals the
  midpoint, narrowing towards the heavier half with accumulation of \<open>rightSumPrev\<close> or
  \<open>leftSumPrev\<close>, and on a tie \<open>left = middle\<close> without accumulation. The function
  returns a \<open>uint8\<close>, the 8-bit value of that \<open>left\<close>, which is \<open>left\<close> itself for up
  to 256 bins. (A slice of \<open>2 ^ 56\<close> bytes or more does not exist, so the \<open>uint\<close> sums
  never wrap.) On the three histograms of \<open>TestMedian\<close> the results are 3, 0 and 6.
\<close>

theorem median_follows_bisection:
  "(length hist < 2 ^ 56 \<longrightarrow> median hist = of_nat (median_spec (map unat hist)))
   \<and> (length hist \<le> 256 \<longrightarrow> unat (median hist) = median_spec (map unat hist))
   \<and> median [2, 0, 0, 7, 0, 1, 3, 0, 0, 0] = 3
   \<and> median [7, 0, 0, 2, 0, 1, 3, 0, 0, 0] = 0
   \<and> median [7, 0, 0, 2, 0, 1, 3, 0, 0, 10] = 6"
proof -
  have "median [2, 0, 0, 7, 0, 1, 3, 0, 0, 0] = 3" by code_simp
  moreover have "median [7, 0, 0, 2, 0, 1, 3, 0, 0, 0] = 0" by code_simp
  moreover have "median [7, 0, 0, 2, 0, 1, 3, 0, 0, 10] = 6" by code_simp
  ultimately show ?thesis
    using median_eq_spec [of hist] median_unat_eq_spec [of hist] by blast
qed

theorem median_follows_bisection_witness:
  "length [7, 0, 0, 2, 0, 1, 3, 0, 0, 10 :: uint8] < 2 ^ 56
   \<and> length [7, 0, 0, 2, 0, 1, 3, 0, 0, 10 :: uint8] \<le> 256
   \<and> median [7, 0, 0, 2, 0, 1, 3, 0, 0, 10] = of_nat (median_spec [7, 0, 0, 2, 0, 1, 3, 0, 0, 10])
   \<and> unat (median [7, 0, 0, 2, 0, 1, 3, 0, 0, 10]) = median_spec [7, 0, 0, 2, 0, 1, 3, 0, 0, 10]
   \<and> median_spec [7, 0, 0, 2, 0, 1, 3, 0, 0, 10] = 6"
proof -
  have "median_spec [7, 0, 0, 2, 0, 1, 3, 0, 0, 10] = 6" by code_simp
  then show ?thesis
    using median_follows_bisection [of "[7, 0, 0, 2, 0, 1, 3, 0, 0, 10]"] by simp
qed

text \<open>
  C9. For every histogram the loop of \<open>median\<close> terminates: each pass through the body
  that does not return leaves a strictly smaller, non-empty interval inside the old
  one, and from a non-empty histogram the loop ends in the \<open>return\<close> of its body with
  \<open>left\<close> an index of the histogram. For a histogram of 256 bins this \<open>left\<close> is at
  most 255, and it is the value of the \<open>uint8\<close> that \<open>median\<close> returns.
\<close>

theorem median_terminates_in_range:
  "(left s < right s \<and> median_body hist s = Inr s' \<longrightarrow>
      left s \<le> left s' \<and> left s' < right s' \<and> right s' \<le> right s
      \<and> right s' - left s' < right s - left s)
   \<and> (hist \<noteq> [] \<longrightarrow>
        (\<exists>l. median_loop hist \<lparr>left = 0, right = length hist, leftSumPrev = 0, rightSumPrev = 0\<rparr>
               = Some l \<and> l < length hist \<and> median hist = of_nat l))
   \<and> (length hist = 256 \<longrightarrow>
        (\<exists>l. median_loop hist \<lparr>left = 0, right = length hist, leftSumPrev = 0, rightSumPrev = 0\<rparr>
               = Some l \<and> l \<le> 255 \<and> unat (median hist) = l))"
proof -
  let ?init = "\<lparr>left = 0, right = length hist, leftSumPrev = 0, rightSumPrev = 0\<rparr>"
  have shrink: "left s \<le> left s' \<and> left s' < right s' \<and> right s' \<le> right s
      \<and> right s' - left s' < right s - left s"
    if "left s < right s \<and> median_body hist s = Inr s'"
    using that median_body_shrinks by blast
  have returns: "\<exists>l. median_loop hist ?init = Some l \<and> l < length hist \<and> median hist = of_nat l"
    if "hist \<noteq> []"
  proof -
    from that have "left ?init < right ?init" by simp
    from median_loop_returns [OF this, of hist] show ?thesis
      by (auto simp: median_def)
  qed
  have range: "\<exists>l. median_loop hist ?init = Some l \<and> l \<le> 255 \<and> unat (median hist) = l"
    if len: "length hist = 256"
  proof -
    from len have "left ?init < right ?init" by simp
    from median_loop_returns [OF this, of hist] len
    obtain l where l: "median_loop hist ?init = Some l" "l < 256" by auto
    then have "unat (median hist) = l" by (simp add: median_def unat_of_nat)
    with l show ?thesis by auto
  qed
  from shrink returns range show ?thesis by blast
qed

theorem median_terminates_in_range_witness:
  "left \<lparr>left = 0, right = 10, leftSumPrev = 0, rightSumPrev = 0\<rparr>
     < right \<lparr>left = 0, right = 10, leftSumPrev = 0, rightSumPrev = 0\<rparr>
   \<and> median_body [7, 0, 0, 2, 0, 1, 3, 0, 0, 10] \<lparr>left = 0, right = 10, leftSumPrev = 0, rightSumPrev = 0\<rparr>
       = Inr \<lparr>left = 5, right = 10, leftSumPrev = 9, rightSumPrev = 0\<rparr>
   \<and> right \<lparr>left = 5, right = 10, leftSumPrev = 9, rightSumPrev = 0 :: uint\<rparr>
       - left \<lparr>left = 5, right = 10, leftSumPrev = 9, rightSumPrev = 0 :: uint\<rparr> < 10 - 0
   \<and> length (replicate 256 (0::uint8)) = 256
   \<and> replicate 256 (0::uint8) \<noteq> []
   \<and> (\<exists>l. median_loop (replicate 256 0)
              \<lparr>left = 0, right = length (replicate 256 (0::uint8)), leftSumPrev = 0, rightSumPrev = 0\<rparr>
             = Some l \<and> l \<le> 255 \<and> unat (median (replicate 256 0)) = l)"
proof -
  have body: "median_body [7, 0, 0, 2, 0, 1, 3, 0, 0, 10]
       \<lparr>left = 0, right = 10, leftSumPrev = 0, rightSumPrev = 0\<rparr>
       = Inr \<lparr>left = 5, right = 10, leftSumPrev = 9, rightSumPrev = 0\<rparr>"
    by (simp add: median_body_def sub_slice_def sum_values_def)
  show ?thesis
    using body
      median_terminates_in_range [of "\<lparr>left = 0, right = 10, leftSumPrev = 0, rightSumPrev = 0\<rparr>"
        "replicate 256 0" "\<lparr>left = 5, right = 10, leftSumPrev = 9, rightSumPrev = 0\<rparr>"]
    by simp
qed

section \<open>Degenerate inputs\<close>

text \<open>
  C8. \<open>ToMedian\<close> and \<open>ToAvarage\<close> do nothing when the area of the image is 0 or the
  size of the window is at most 1: they return without a panic and leave \<open>Pix\<close>,
  \<open>Rect\<close> and \<open>Stride\<close> as they were.
\<close>

theorem filters_noop_on_degenerate_input:
  "(MaxX g - MinX g) * (MaxY g - MinY g) = 0 \<or> size_u \<le> 1 \<Longrightarrow>
     ToMedian g size_u = Some g \<and> ToAvarage g size_u = Some g"
  by (auto simp: ToMedian_def ToAvarage_def word_le_nat_alt word_less_nat_alt)

theorem filters_noop_on_degenerate_input_witness:
  "((MaxX \<lparr>Pix = [7], Stride = 1, MinX = 0, MinY = 0, MaxX = 1, MaxY = 1\<rparr>
      - MinX \<lparr>Pix = [7], Stride = 1, MinX = 0, MinY = 0, MaxX = 1, MaxY = 1\<rparr>)
     * (MaxY \<lparr>Pix = [7], Stride = 1, MinX = 0, MinY = 0, MaxX = 1, MaxY = 1\<rparr>
      - MinY \<lparr>Pix = [7], Stride = 1, MinX = 0, MinY = 0, MaxX = 1, MaxY = 1\<rparr>) = 0
    \<or> (1::uint) \<le> 1)
   \<and> ToMedian \<lparr>Pix = [7], Stride = 1, MinX = 0, MinY = 0, MaxX = 1, MaxY = 1\<rparr> 1
       = Some \<lparr>Pix = [7], Stride = 1, MinX = 0, MinY = 0, MaxX = 1, MaxY = 1\<rparr>
   \<and> ToAvarage \<lparr>Pix = [7], Stride = 1, MinX = 0, MinY = 0, MaxX = 1, MaxY = 1\<rparr> 1
       = Some \<lparr>Pix = [7], Stride = 1, MinX = 0, MinY = 0, MaxX = 1, MaxY = 1\<rparr>"
  using filters_noop_on_degenerate_input
    [of "\<lparr>Pix = [7], Stride = 1, MinX = 0, MinY = 0, MaxX = 1, MaxY = 1\<rparr>" 1]
  by simp

section \<open>Properties of \<open>avarage\<close>\<close>

lemma avarage_sum_foldl:
  "foldl (\<lambda>s (i, v). s + of_nat i * ucast v) (a::uint) (zip ks (xs::uint8 list))
   = a + of_nat (sum_list (map (\<lambda>(i, v). i * unat v) (zip ks xs)))"
proof (induction xs arbitrary: a ks)
  case Nil
  then show ?case by simp
next
  case (Cons x xs)
  then show ?case by (cases ks) (simp_all add: add.assoc)
qed

lemma zip_upt_nth: "zip [0 ..< length xs] xs = map (\<lambda>i. (i, xs ! i)) [0 ..< length xs]"
  by (rule nth_equalityI) simp_all

lemma weighted_sum_list:
  "sum_list (map (\<lambda>(i, v). i * unat v) (zip [0 ..< length hist] hist)) = weighted_sum hist"
  by (simp add: zip_upt_nth weighted_sum_def comp_def interv_sum_list_conv_sum_set_nat atLeast0LessThan)

lemma avarage_sum_of_nat: "avarage_sum hist = of_nat (weighted_sum hist)"
  using avarage_sum_foldl [of 0 "[0 ..< length hist]" hist]
  by (simp add: avarage_sum_def weighted_sum_list)

lemma weighted_sum_le: "weighted_sum hist \<le> length hist * 255 * length hist"
proof -
  have "weighted_sum hist \<le> (\<Sum>i<length hist. length hist * 255)"
    unfolding weighted_sum_def
    by (intro sum_mono mult_mono) (use unat_uint8_le in auto)
  then show ?thesis by simp
qed

lemma weighted_sum_le_counts:
  assumes "length hist \<le> 256"
  shows "weighted_sum hist \<le> 255 * sum_list (map unat hist)"
proof -
  have "weighted_sum hist \<le> (\<Sum>i<length hist. 255 * unat (hist ! i))"
    unfolding weighted_sum_def
    by (intro sum_mono mult_mono) (use assms in auto)
  also have "\<dots> = 255 * (\<Sum>i<length hist. unat (hist ! i))"
    by (simp add: sum_distrib_left)
  also have "(\<Sum>i<length hist. unat (hist ! i)) = sum_list (map unat hist)"
    by (simp add: sum_list_sum_nth atLeast0LessThan)
  finally show ?thesis .
qed

lemma avarage_general:
  "avarage hist sz =
     (if (sz * sz) mod 2 ^ 64 = 0 then None
      else Some (of_nat ((weighted_sum hist mod 2 ^ 64) div nat ((sz * sz) mod 2 ^ 64))))"
proof -
  define k where "k = sz * sz"
  define d where "d = (word_of_int k :: uint)"
  have ud: "unat d = nat (k mod 2 ^ 64)"
    unfolding d_def by (simp add: unat_eq_nat_uint uint_word_of_int take_bit_eq_mod)
  have d0: "d = 0 \<longleftrightarrow> k mod 2 ^ 64 = 0"
    unfolding d_def by (simp add: word_of_int_eq_0_iff mod_eq_0_iff_dvd)
  have us: "unat (avarage_sum hist) = weighted_sum hist mod 2 ^ 64"
    by (simp add: avarage_sum_of_nat unat_of_nat)
  have "unat (avarage_sum hist div d) = (weighted_sum hist mod 2 ^ 64) div nat (k mod 2 ^ 64)"
    by (simp only: unat_div us ud)
  moreover have "(ucast (avarage_sum hist div d) :: uint8) = of_nat (unat (avarage_sum hist div d))"
    by simp
  ultimately have "(ucast (avarage_sum hist div d) :: uint8)
      = of_nat ((weighted_sum hist mod 2 ^ 64) div nat (k mod 2 ^ 64))"
    by simp
  then show ?thesis
    unfolding avarage_def Let_def k_def [symmetric] d_def [symmetric] d0 by simp
qed

text \<open>
  C7, as stated, fails in two ways. The value returned is a \<open>uint8\<close>, so a floor above
  255 is cut to its low 8 bits: for the histogram of 256 bins with count 5 in bin 255
  and \<open>size = 2\<close> the floor of \<open>1275 / 4\<close> is 318, and \<open>avarage\<close> returns 62. And
  \<open>uint(size * size)\<close> wraps: for \<open>size = 2 ^ 32\<close> the divisor is 0 and the division
  panics, so that nothing is returned.
\<close>

theorem avarage_is_floor_counterexample:
  "avarage ((replicate 256 0)[255 := 5]) 2 = Some 62
   \<and> weighted_sum ((replicate 256 0)[255 := 5]) div nat (2 * 2) = 318
   \<and> unat (62::uint8) \<noteq> weighted_sum ((replicate 256 0)[255 := 5]) div nat (2 * 2)
   \<and> \<not> weighted_sum ((replicate 256 0)[255 := 5]) div nat (2 * 2) \<le> 255
   \<and> avarage ((replicate 256 0)[255 := 5]) (2 ^ 32) = None"
proof -
  have a: "avarage ((replicate 256 0)[255 := 5]) 2 = Some 62" by code_simp
  have w: "weighted_sum ((replicate 256 0)[255 := 5]) = 1275" by code_simp
  have p: "avarage ((replicate 256 0)[255 := 5]) (2 ^ 32) = None"
    by (simp only: avarage_general) simp
  from a p show ?thesis by (simp add: w)
qed

text \<open>
  C7, amended. For every size from 2 to below \<open>2 ^ 32\<close> and every histogram whose sum
  of bin index times bin count is below \<open>2 ^ 64\<close> (every histogram of at most \<open>2 ^ 24\<close>
  bins is one), \<open>avarage\<close> returns the low 8 bits of the floor of that sum divided by the
  square of the size, that is the floor modulo 256. When the histogram has at most 256
  bins and its counts add up to at most the square of the size, as those of a window
  do, the floor itself is at most 255 and is the value returned. For all other inputs
  the first part of the theorem gives what \<open>avarage\<close> does: it panics when
  \<open>size * size\<close> is 0 modulo \<open>2 ^ 64\<close>, and otherwise returns the low 8 bits of the
  quotient of the sum and the square, both modulo \<open>2 ^ 64\<close>.
\<close>

theorem avarage_is_floor:
  "avarage hist sz =
     (if (sz * sz) mod 2 ^ 64 = 0 then None
      else Some (of_nat ((weighted_sum hist mod 2 ^ 64) div nat ((sz * sz) mod 2 ^ 64))))
   \<and> (2 \<le> sz \<and> sz < 2 ^ 32 \<and> (weighted_sum hist < 2 ^ 64 \<or> length hist \<le> 2 ^ 24) \<longrightarrow>
        (\<exists>r. avarage hist sz = Some r
           \<and> r = of_nat (weighted_sum hist div nat (sz * sz))
           \<and> unat r = (weighted_sum hist div nat (sz * sz)) mod 256))
   \<and> (2 \<le> sz \<and> sz < 2 ^ 32 \<and> length hist \<le> 256
        \<and> sum_list (map unat hist) \<le> nat (sz * sz) \<longrightarrow>
        (\<exists>r. avarage hist sz = Some r
           \<and> unat r = weighted_sum hist div nat (sz * sz)
           \<and> weighted_sum hist div nat (sz * sz) \<le> 255))"
proof -
  let ?q = "weighted_sum hist div nat (sz * sz)"
  have val: "avarage hist sz = Some (of_nat ?q)"
    if sz: "2 \<le> sz" "sz < 2 ^ 32" and ws: "weighted_sum hist < 2 ^ 64"
  proof -
    have "sz * sz < 2 ^ 32 * 2 ^ 32" using sz by (intro mult_strict_mono) auto
    then have lt: "sz * sz < 2 ^ 64" by simp
    have pos: "0 < sz * sz" using sz by simp
    from lt pos have m: "(sz * sz) mod 2 ^ 64 = sz * sz" by simp
    from ws have w: "weighted_sum hist mod 2 ^ 64 = weighted_sum hist" by simp
    from sz have "sz \<noteq> 0" by simp
    then show ?thesis by (simp only: avarage_general m w) simp
  qed
  have small: "weighted_sum hist < 2 ^ 64" if len: "length hist \<le> 2 ^ 24"
  proof -
    have "length hist * 255 * length hist \<le> 2 ^ 24 * 255 * 2 ^ 24"
      using len by (intro mult_mono) auto
    also have "\<dots> < (2::nat) ^ 64" by simp
    finally show ?thesis using weighted_sum_le [of hist] by linarith
  qed
  have modular: "\<exists>r. avarage hist sz = Some r \<and> r = of_nat ?q \<and> unat r = ?q mod 256"
    if h: "2 \<le> sz \<and> sz < 2 ^ 32 \<and> (weighted_sum hist < 2 ^ 64 \<or> length hist \<le> 2 ^ 24)"
  proof -
    from h small have "weighted_sum hist < 2 ^ 64" by blast
    with h have "avarage hist sz = Some (of_nat ?q)" by (intro val) simp_all
    moreover have "unat (of_nat ?q :: uint8) = ?q mod 256" by (simp add: unat_of_nat)
    ultimately show ?thesis by simp
  qed
  have exact: "\<exists>r. avarage hist sz = Some r \<and> unat r = ?q \<and> ?q \<le> 255"
    if h: "2 \<le> sz \<and> sz < 2 ^ 32 \<and> length hist \<le> 256
           \<and> sum_list (map unat hist) \<le> nat (sz * sz)"
  proof -
    from h have "length hist \<le> 2 ^ 24" by simp
    then have "weighted_sum hist < 2 ^ 64" by (rule small)
    with h have v: "avarage hist sz = Some (of_nat ?q)" by (intro val) simp_all
    have "weighted_sum hist \<le> 255 * sum_list (map unat hist)"
      using h by (intro weighted_sum_le_counts) simp
    also have "\<dots> \<le> 255 * nat (sz * sz)" using h by simp
    finally have "?q \<le> 255 * nat (sz * sz) div nat (sz * sz)" by (rule div_le_mono)
    also have "\<dots> \<le> 255" using h by simp
    finally have q: "?q \<le> 255" .
    then have "unat (of_nat ?q :: uint8) = ?q" by (simp add: unat_of_nat)
    with v q show ?thesis by simp
  qed
  from avarage_general [of hist sz] modular exact show ?thesis by blast
qed

theorem avarage_is_floor_witness:
  "(2::int) \<le> 2 \<and> (2::int) < 2 ^ 32
   \<and> weighted_sum ((replicate 256 0)[0 := 1, 5 := 1, 9 := 1, 16 := 1 :: uint8]) < 2 ^ 64
   \<and> length ((replicate 256 0)[0 := 1, 5 := 1, 9 := 1, 16 := 1 :: uint8]) \<le> 2 ^ 24
   \<and> length ((replicate 256 0)[0 := 1, 5 := 1, 9 := 1, 16 := 1 :: uint8]) \<le> 256
   \<and> sum_list (map unat ((replicate 256 0)[0 := 1, 5 := 1, 9 := 1, 16 := 1 :: uint8])) \<le> nat (2 * 2)
   \<and> weighted_sum ((replicate 256 0)[0 := 1, 5 := 1, 9 := 1, 16 := 1]) = 30
   \<and> (\<exists>r. avarage ((replicate 256 0)[0 := 1, 5 := 1, 9 := 1, 16 := 1]) 2 = Some r \<and> unat r = 7)"
proof -
  let ?h = "(replicate 256 0)[0 := 1, 5 := 1, 9 := 1, 16 := 1 :: uint8]"
  have w: "weighted_sum ?h = 30" by code_simp
  have c: "sum_list (map unat ?h) \<le> nat (2 * 2)" by code_simp
  from avarage_is_floor [of ?h 2] w c show ?thesis by simp
qed

section \<open>The two regions of rows\<close>

lemma int_range_length: "length (int_range lo hi) = nat (hi - lo)"
  by (simp add: int_range_def)

lemma int_range_append:
  "lo \<le> mid \<Longrightarrow> mid \<le> hi \<Longrightarrow> int_range lo mid @ int_range mid hi = int_range lo hi"
  using upto_split1 [of lo mid "hi - 1"]
  by (cases "mid = hi") (auto simp: int_range_def)

lemma size_gt_1: "2 \<le> sint (size_u::uint) \<Longrightarrow> 1 < size_u"
proof -
  assume a: "2 \<le> sint size_u"
  show ?thesis
  proof (rule ccontr)
    assume "\<not> 1 < size_u"
    then have "size_u \<le> 1" by simp
    then have "unat size_u \<le> 1" by (simp add: word_le_nat_alt)
    then consider "unat size_u = 0" | "unat size_u = 1" by linarith
    moreover have e: "(of_nat (unat size_u) :: uint) = size_u" by simp
    ultimately have "size_u = 0 \<or> size_u = 1"
    proof cases
      case 1
      from e [unfolded 1] show ?thesis by simp
    next
      case 2
      from e [unfolded 2] show ?thesis by simp
    qed
    with a show False by auto
  qed
qed

lemma take_int_range: "take n (int_range lo hi) = int_range lo (min hi (lo + int n))"
proof (rule nth_equalityI)
  show "length (take n (int_range lo hi)) = length (int_range lo (min hi (lo + int n)))"
    by (simp add: int_range_length)
next
  fix i assume "i < length (take n (int_range lo hi))"
  then have "i < n \<and> i < nat (hi - lo)" by (simp add: int_range_length)
  then have i: "i < n" "int i < hi - lo" by linarith+
  then show "take n (int_range lo hi) ! i = int_range lo (min hi (lo + int n)) ! i"
    by (simp add: int_range_def nth_upto)
qed

lemma zip_rows:
  assumes "lo \<le> hi" and "a \<le> b"
  shows "map fst (zip (int_range lo hi) (int_range a b)) = int_range lo (lo + min (hi - lo) (b - a))"
proof -
  have "map fst (zip (int_range lo hi) (int_range a b))
        = take (min (nat (hi - lo)) (nat (b - a))) (int_range lo hi)"
    by (simp add: map_fst_zip_take int_range_length)
  also have "\<dots> = int_range lo (min hi (lo + int (min (nat (hi - lo)) (nat (b - a)))))"
    by (rule take_int_range)
  also have "min hi (lo + int (min (nat (hi - lo)) (nat (b - a)))) = lo + min (hi - lo) (b - a)"
    using assms by linarith
  finally show ?thesis .
qed

text \<open>
  C5, as stated, fails for an even size: on an image of two rows with \<open>size = 2\<close>
  (\<open>half = 1\<close>, \<open>size - half - 1 = 0\<close>) the first loop handles row 0 only and the last
  loop handles one row, not none.
\<close>

theorem regions_split_at_half_counterexample:
  "int (length (tail_rows \<lparr>Pix = [0, 0], Stride = 1, MinX = 0, MinY = 0, MaxX = 1, MaxY = 2\<rparr> 2))
     \<noteq> 2 - 2 div 2 - 1
   \<and> main_rows \<lparr>Pix = [0, 0], Stride = 1, MinX = 0, MinY = 0, MaxX = 1, MaxY = 2\<rparr> 2 = [0]
   \<and> tail_rows \<lparr>Pix = [0, 0], Stride = 1, MinX = 0, MinY = 0, MaxX = 1, MaxY = 2\<rparr> 2 = [1]"
  by (simp add: main_rows_def tail_rows_def limit_def int_range_def upto.simps)

text \<open>
  C5, amended. For every image of height \<open>H\<close> with at least one column and every size
  whose signed reading is at least 2, with \<open>half = size / 2 \<le> H\<close>: the first loop of
  \<open>ToMedian\<close> and of \<open>ToAvarage\<close> (\<open>main_row\<close>, which inserts row \<open>y + half\<close>) runs over
  the rows from the top until exactly \<open>half\<close> rows remain before the bottom. The last
  loop of \<open>ToAvarage\<close> (\<open>tail_row\<close>, which inserts the white row) runs over exactly the
  last \<open>half\<close> rows. The last loop of \<open>ToMedian\<close> (\<open>tail_pixel\<close>) starts at the first of
  these rows and stays within them: it steps the column together with the row, so its
  rows are the first \<open>min half width\<close> of them. \<open>half\<close> is \<open>size - half - 1\<close> when the
  size is odd and one more when it is even.
\<close>

theorem regions_split_at_half:
  assumes sz: "2 \<le> sint size_u"
    and w: "0 < MaxX g - MinX g" and h: "sint size_u div 2 \<le> MaxY g - MinY g"
  shows
    "ToAvarage g size_u = do {
        lines0 \<leftarrow> newLines g (sint size_u);
        s1 \<leftarrow> for_each (int_range (MinY g) (MaxY g - sint size_u div 2))
                (main_row (\<lambda>h. avarage h (sint size_u)) (sint size_u))
                \<lparr>the_img = g, the_lines = lines0, the_hist = replicate 256 0\<rparr>;
        (whiteLine, s2) \<leftarrow> whiten s1;
        s3 \<leftarrow> for_each (int_range (MaxY g - sint size_u div 2) (MaxY g))
                (tail_row (\<lambda>h. avarage h (sint size_u)) (sint size_u) whiteLine) s2;
        Some (the_img s3)
      }
     \<and> ToMedian g size_u = do {
        lines0 \<leftarrow> newLines g (sint size_u);
        s1 \<leftarrow> for_each (int_range (MinY g) (MaxY g - sint size_u div 2))
                (main_row (\<lambda>h. Some (median h)) (sint size_u))
                \<lparr>the_img = g, the_lines = lines0, the_hist = replicate 256 0\<rparr>;
        (whiteLine, s2) \<leftarrow> whiten s1;
        s3 \<leftarrow> for_each
                (zip (int_range (MaxY g - sint size_u div 2) (MaxY g)) (int_range (MinX g) (MaxX g)))
                (tail_pixel (\<lambda>h. Some (median h)) (sint size_u) whiteLine) s2;
        Some (the_img s3)
      }
     \<and> map fst (zip (int_range (MaxY g - sint size_u div 2) (MaxY g)) (int_range (MinX g) (MaxX g)))
         = int_range (MaxY g - sint size_u div 2)
             (MaxY g - sint size_u div 2 + min (sint size_u div 2) (MaxX g - MinX g))
     \<and> int_range (MinY g) (MaxY g - sint size_u div 2)
         @ int_range (MaxY g - sint size_u div 2) (MaxY g) = int_range (MinY g) (MaxY g)
     \<and> int (length (int_range (MinY g) (MaxY g - sint size_u div 2)))
         = (MaxY g - MinY g) - sint size_u div 2
     \<and> int (length (int_range (MaxY g - sint size_u div 2) (MaxY g))) = sint size_u div 2
     \<and> (odd (sint size_u) \<longrightarrow> sint size_u div 2 = sint size_u - sint size_u div 2 - 1)
     \<and> (even (sint size_u) \<longrightarrow> sint size_u div 2 = sint size_u - sint size_u div 2 - 1 + 1)"
proof -
  let ?sz = "sint size_u"
  let ?lim = "MaxY g - ?sz div 2"
  from sz have half: "1 \<le> ?sz div 2" by linarith
  with h have H: "0 < MaxY g - MinY g" by linarith
  from w H have guard: "(MaxX g - MinX g) * (MaxY g - MinY g) > 0 \<and> size_u > 1"
    using size_gt_1 [OF sz] by simp
  have rows: "tail_rows g ?sz = int_range ?lim (MaxY g)" "main_rows g ?sz = int_range (MinY g) ?lim"
    by (simp_all add: tail_rows_def main_rows_def limit_def)
  have A: "ToAvarage g size_u = do {
        lines0 \<leftarrow> newLines g ?sz;
        s1 \<leftarrow> for_each (int_range (MinY g) ?lim) (main_row (\<lambda>h. avarage h ?sz) ?sz)
                \<lparr>the_img = g, the_lines = lines0, the_hist = replicate 256 0\<rparr>;
        (whiteLine, s2) \<leftarrow> whiten s1;
        s3 \<leftarrow> for_each (int_range ?lim (MaxY g)) (tail_row (\<lambda>h. avarage h ?sz) ?sz whiteLine) s2;
        Some (the_img s3)
      }"
    unfolding ToAvarage_def Let_def rows using guard by (simp only: simp_thms if_True)
  have M: "ToMedian g size_u = do {
        lines0 \<leftarrow> newLines g ?sz;
        s1 \<leftarrow> for_each (int_range (MinY g) ?lim) (main_row (\<lambda>h. Some (median h)) ?sz)
                \<lparr>the_img = g, the_lines = lines0, the_hist = replicate 256 0\<rparr>;
        (whiteLine, s2) \<leftarrow> whiten s1;
        s3 \<leftarrow> for_each (zip (int_range ?lim (MaxY g)) (int_range (MinX g) (MaxX g)))
                (tail_pixel (\<lambda>h. Some (median h)) ?sz whiteLine) s2;
        Some (the_img s3)
      }"
    unfolding ToMedian_def Let_def rows using guard by (simp only: simp_thms if_True)
  have "map fst (zip (int_range ?lim (MaxY g)) (int_range (MinX g) (MaxX g)))
        = int_range ?lim (?lim + min (MaxY g - ?lim) (MaxX g - MinX g))"
    using half w by (intro zip_rows) linarith+
  then have Z: "map fst (zip (int_range ?lim (MaxY g)) (int_range (MinX g) (MaxX g)))
        = int_range ?lim (?lim + min (?sz div 2) (MaxX g - MinX g))"
    by simp
  have app: "int_range (MinY g) ?lim @ int_range ?lim (MaxY g) = int_range (MinY g) (MaxY g)"
    using h half by (intro int_range_append) linarith+
  have len: "int (length (int_range (MinY g) ?lim)) = (MaxY g - MinY g) - ?sz div 2"
    "int (length (int_range ?lim (MaxY g))) = ?sz div 2"
    using h half by (simp_all add: int_range_length)
  have par: "odd ?sz \<longrightarrow> ?sz div 2 = ?sz - ?sz div 2 - 1"
    "even ?sz \<longrightarrow> ?sz div 2 = ?sz - ?sz div 2 - 1 + 1"
    by (auto elim!: oddE evenE)
  from A M Z app len par show ?thesis by blast
qed

theorem regions_split_at_half_witness:
  "2 \<le> sint (4 :: uint)
   \<and> 0 < MaxX \<lparr>Pix = [0, 0, 0, 0], Stride = 1, MinX = 0, MinY = 0, MaxX = 1, MaxY = 4\<rparr>
         - MinX \<lparr>Pix = [0, 0, 0, 0], Stride = 1, MinX = 0, MinY = 0, MaxX = 1, MaxY = 4\<rparr>
   \<and> sint (4 :: uint) div 2
       \<le> MaxY \<lparr>Pix = [0, 0, 0, 0], Stride = 1, MinX = 0, MinY = 0, MaxX = 1, MaxY = 4\<rparr>
         - MinY \<lparr>Pix = [0, 0, 0, 0], Stride = 1, MinX = 0, MinY = 0, MaxX = 1, MaxY = 4\<rparr>
   \<and> ToAvarage \<lparr>Pix = [0, 0, 0, 0], Stride = 1, MinX = 0, MinY = 0, MaxX = 1, MaxY = 4\<rparr> 4 = do {
        lines0 \<leftarrow> newLines \<lparr>Pix = [0, 0, 0, 0], Stride = 1, MinX = 0, MinY = 0, MaxX = 1, MaxY = 4\<rparr> 4;
        s1 \<leftarrow> for_each [0, 1] (main_row (\<lambda>h. avarage h 4) 4)
                \<lparr>the_img = \<lparr>Pix = [0, 0, 0, 0], Stride = 1, MinX = 0, MinY = 0, MaxX = 1, MaxY = 4\<rparr>,
                 the_lines = lines0, the_hist = replicate 256 0\<rparr>;
        (whiteLine, s2) \<leftarrow> whiten s1;
        s3 \<leftarrow> for_each [2, 3] (tail_row (\<lambda>h. avarage h 4) 4 whiteLine) s2;
        Some (the_img s3)
      }
   \<and> ToMedian \<lparr>Pix = [0, 0, 0, 0], Stride = 1, MinX = 0, MinY = 0, MaxX = 1, MaxY = 4\<rparr> 4 = do {
        lines0 \<leftarrow> newLines \<lparr>Pix = [0, 0, 0, 0], Stride = 1, MinX = 0, MinY = 0, MaxX = 1, MaxY = 4\<rparr> 4;
        s1 \<leftarrow> for_each [0, 1] (main_row (\<lambda>h. Some (median h)) 4)
                \<lparr>the_img = \<lparr>Pix = [0, 0, 0, 0], Stride = 1, MinX = 0, MinY = 0, MaxX = 1, MaxY = 4\<rparr>,
                 the_lines = lines0, the_hist = replicate 256 0\<rparr>;
        (whiteLine, s2) \<leftarrow> whiten s1;
        s3 \<leftarrow> for_each [(2, 0)] (tail_pixel (\<lambda>h. Some (median h)) 4 whiteLine) s2;
        Some (the_img s3)
      }
   \<and> map fst (zip (int_range 2 4) (int_range 0 1)) = [2]
   \<and> int_range 0 2 @ int_range 2 4 = [0, 1, 2, 3]"
  using regions_split_at_half
    [of 4 "\<lparr>Pix = [0, 0, 0, 0], Stride = 1, MinX = 0, MinY = 0, MaxX = 1, MaxY = 4\<rparr>"]
  by (simp add: int_range_def upto.simps)

section \<open>The last loop of \<open>ToMedian\<close>\<close>

lemma ToMedian_black_2x2:
  "ToMedian \<lparr>Pix = [0, 0, 0, 0], Stride = 2, MinX = 0, MinY = 0, MaxX = 2, MaxY = 2\<rparr> 2
     = Some \<lparr>Pix = [255, 0, 255, 0], Stride = 2, MinX = 0, MinY = 0, MaxX = 2, MaxY = 2\<rparr>"
  by code_simp

lemma ToAvarage_black_2x2:
  "ToAvarage \<lparr>Pix = [0, 0, 0, 0], Stride = 2, MinX = 0, MinY = 0, MaxX = 2, MaxY = 2\<rparr> 2
     = Some \<lparr>Pix = [127, 0, 191, 127], Stride = 2, MinX = 0, MinY = 0, MaxX = 2, MaxY = 2\<rparr>"
  by code_simp

lemma window_black_2x2:
  "(case fillHistogram (replicate 256 0) (replicate 256 0) [[255, 255, 255], [255, 0, 0]] 2 1 of
      Some h \<Rightarrow> median h = 255 | None \<Rightarrow> False)"
  by code_simp

text \<open>
  C4 fails for \<open>ToMedian\<close>. Its last loop advances \<open>x\<close> together with \<open>y\<close>, so it
  stores one pixel per row. On a black image of 2 by 2 pixels with \<open>size = 2\<close> the last
  loop handles row 1 and stores the pixel of column 0 only: the pixel of column 1, at
  offset 3, keeps its value 0. The window of that pixel holds two white padding cells
  and two black pixels, and \<open>median\<close> of its histogram is 255. \<open>ToAvarage\<close> stores
  every pixel of the row.
\<close>

theorem ToMedian_tail_skips_pixels:
  "ToMedian \<lparr>Pix = [0, 0, 0, 0], Stride = 2, MinX = 0, MinY = 0, MaxX = 2, MaxY = 2\<rparr> 2
     = Some \<lparr>Pix = [255, 0, 255, 0], Stride = 2, MinX = 0, MinY = 0, MaxX = 2, MaxY = 2\<rparr>
   \<and> ToAvarage \<lparr>Pix = [0, 0, 0, 0], Stride = 2, MinX = 0, MinY = 0, MaxX = 2, MaxY = 2\<rparr> 2
     = Some \<lparr>Pix = [127, 0, 191, 127], Stride = 2, MinX = 0, MinY = 0, MaxX = 2, MaxY = 2\<rparr>
   \<and> (case fillHistogram (replicate 256 0) (replicate 256 0) [[255, 255, 255], [255, 0, 0]] 2 1 of
         Some h \<Rightarrow> median h = 255 | None \<Rightarrow> False)"
  using ToMedian_black_2x2 ToAvarage_black_2x2 window_black_2x2 by (intro conjI)

section \<open>Counters of 8 bits\<close>

text \<open>
  The bins of the histogram are \<open>uint8\<close>. A window of 16 by 16 cells that are all
  white increments bin 255 256 times, which leaves it at 0.
\<close>

lemma newLines_white_1x8:
  "newLines \<lparr>Pix = replicate 8 255, Stride = 1, MinX = 0, MinY = 0, MaxX = 1, MaxY = 8\<rparr> 16
     = Some (replicate 16 (replicate 16 255))"
  by code_simp

lemma whiten_white_1x8:
  "whiten \<lparr>the_img = \<lparr>Pix = replicate 8 255, Stride = 1, MinX = 0, MinY = 0, MaxX = 1, MaxY = 8\<rparr>,
           the_lines = replicate 16 (replicate 16 255), the_hist = replicate 256 0\<rparr>
     = Some (replicate 16 255,
         \<lparr>the_img = \<lparr>Pix = replicate 8 255, Stride = 1, MinX = 0, MinY = 0, MaxX = 1, MaxY = 8\<rparr>,
          the_lines = replicate 16 (replicate 16 255), the_hist = replicate 256 0\<rparr>)"
  by code_simp

lemma shift_white_16:
  "replicate 16 (255::uint8) # butlast (replicate 16 (replicate 16 255)) = replicate 16 (replicate 16 255)"
  by code_simp

lemma white_window_16:
  "fillHistogram (replicate 256 0) (replicate 256 0) (replicate 16 (replicate 16 255)) 16 0
     = Some (replicate 256 0)"
  by code_simp

text \<open>
  C2 fails on the code. For the white image of 1 by 8 pixels and \<open>size = 16\<close>, the
  buffer at output row 0 (after \<open>newLines\<close>, no row of the first loop, the whitening
  of the last line and the first advance of the last loop) is 16 lines of 16 white
  cells, and the histogram that \<open>fillHistogram\<close> builds from it at column 0 is 0 in
  every bin: its total is 0, not \<open>16 * 16 = 256\<close>.
\<close>

theorem fillHistogram_total_wraps:
  "newLines \<lparr>Pix = replicate 8 255, Stride = 1, MinX = 0, MinY = 0, MaxX = 1, MaxY = 8\<rparr> 16
     = Some (replicate 16 (replicate 16 255))
   \<and> main_rows \<lparr>Pix = replicate 8 255, Stride = 1, MinX = 0, MinY = 0, MaxX = 1, MaxY = 8\<rparr> 16 = []
   \<and> whiten \<lparr>the_img = \<lparr>Pix = replicate 8 255, Stride = 1, MinX = 0, MinY = 0, MaxX = 1, MaxY = 8\<rparr>,
              the_lines = replicate 16 (replicate 16 255), the_hist = replicate 256 0\<rparr>
       = Some (replicate 16 255,
           \<lparr>the_img = \<lparr>Pix = replicate 8 255, Stride = 1, MinX = 0, MinY = 0, MaxX = 1, MaxY = 8\<rparr>,
            the_lines = replicate 16 (replicate 16 255), the_hist = replicate 256 0\<rparr>)
   \<and> white_line (replicate 16 255)
         \<lparr>the_img = \<lparr>Pix = replicate 8 255, Stride = 1, MinX = 0, MinY = 0, MaxX = 1, MaxY = 8\<rparr>,
          the_lines = replicate 16 (replicate 16 255), the_hist = replicate 256 0\<rparr>
       = Some
          \<lparr>the_img = \<lparr>Pix = replicate 8 255, Stride = 1, MinX = 0, MinY = 0, MaxX = 1, MaxY = 8\<rparr>,
           the_lines = replicate 16 (replicate 16 255), the_hist = replicate 256 0\<rparr>
   \<and> fillHistogram (replicate 256 0) (replicate 256 0) (replicate 16 (replicate 16 255)) 16 0
       = Some (replicate 256 0)
   \<and> sum_list (map unat (replicate 256 (0::uint8))) = 0
   \<and> sum_list (map unat (replicate 256 (0::uint8))) \<noteq> 16 * 16"
proof -
  have "main_rows \<lparr>Pix = replicate 8 255, Stride = 1, MinX = 0, MinY = 0, MaxX = 1, MaxY = 8\<rparr> 16 = []"
    by (simp add: main_rows_def limit_def int_range_def)
  moreover have "white_line (replicate 16 255)
         \<lparr>the_img = \<lparr>Pix = replicate 8 255, Stride = 1, MinX = 0, MinY = 0, MaxX = 1, MaxY = 8\<rparr>,
          the_lines = replicate 16 (replicate 16 255), the_hist = replicate 256 0\<rparr>
       = Some
          \<lparr>the_img = \<lparr>Pix = replicate 8 255, Stride = 1, MinX = 0, MinY = 0, MaxX = 1, MaxY = 8\<rparr>,
           the_lines = replicate 16 (replicate 16 255), the_hist = replicate 256 0\<rparr>"
    unfolding white_line_def shiftLines_def by (simp add: shift_white_16)
  moreover have "sum_list (map unat (replicate 256 (0::uint8))) = 0"
    by (simp add: sum_list_replicate)
  moreover have "sum_list (map unat (replicate 256 (0::uint8))) \<noteq> 16 * 16"
    by (simp add: sum_list_replicate)
  ultimately show ?thesis
    using newLines_white_1x8 whiten_white_1x8 white_window_16 by blast
qed

text \<open>The run of \<open>ToAvarage\<close> on that image, step by step.\<close>

lemma avarage_empty_16: "avarage (replicate 256 0) 16 = Some 0"
  by code_simp

lemma tail_row_white_1x8:
  assumes "length p = 8" "0 \<le> y" "y < 8"
  shows "tail_row (\<lambda>h. avarage h 16) 16 (replicate 16 255) y
           \<lparr>the_img = \<lparr>Pix = p, Stride = 1, MinX = 0, MinY = 0, MaxX = 1, MaxY = 8\<rparr>,
            the_lines = replicate 16 (replicate 16 255), the_hist = replicate 256 0\<rparr>
         = Some \<lparr>the_img = \<lparr>Pix = p[nat y := 0], Stride = 1, MinX = 0, MinY = 0, MaxX = 1, MaxY = 8\<rparr>,
                 the_lines = replicate 16 (replicate 16 255), the_hist = replicate 256 0\<rparr>"
proof -
  have ne: "replicate 16 (replicate 16 (255::uint8)) \<noteq> []" by simp
  have cols: "int_range 0 1 = [0]" by (simp add: int_range_def)
  show ?thesis
    unfolding tail_row_def white_line_def shiftLines_def Let_def
    using assms
    by (simp only: ne if_False bind.bind_lunit vars.simps Gray.simps shift_white_16 cols
          for_each.simps pixel_def white_window_16 avarage_empty_16 option.case)
       (simp add: store_at_def)
qed

lemma ToAvarage_white_1x8:
  "ToAvarage \<lparr>Pix = replicate 8 255, Stride = 1, MinX = 0, MinY = 0, MaxX = 1, MaxY = 8\<rparr> 16
     = Some \<lparr>Pix = replicate 8 0, Stride = 1, MinX = 0, MinY = 0, MaxX = 1, MaxY = 8\<rparr>"
proof -
  let ?g = "\<lparr>Pix = replicate 8 255, Stride = 1, MinX = 0, MinY = 0, MaxX = 1, MaxY = 8\<rparr>"
  have mr: "main_rows ?g 16 = []"
    by (simp add: main_rows_def limit_def int_range_def)
  have tr: "tail_rows ?g 16 = [0, 1, 2, 3, 4, 5, 6, 7]"
    by code_simp
  have guard: "(0::int) < (MaxX ?g - MinX ?g) * (MaxY ?g - MinY ?g) \<and> (1::uint) < 16" by simp
  have s16: "sint (16::uint) = 16" by simp
  show ?thesis
    unfolding ToAvarage_def Let_def
    by (simp only: guard if_True s16 newLines_white_1x8 mr tr for_each.simps bind.bind_lunit
          whiten_white_1x8 case_prod_conv)
       (simp add: tail_row_white_1x8, code_simp)
qed

text \<open>
  C3 fails on the code for the same reason: \<open>ToAvarage\<close> with \<open>size = 16\<close> turns the
  white image of 1 by 8 pixels black, every pixel being the average 0 of a histogram
  whose bins are all 0.
\<close>

theorem ToAvarage_white_turns_black:
  "ToAvarage \<lparr>Pix = replicate 8 255, Stride = 1, MinX = 0, MinY = 0, MaxX = 1, MaxY = 8\<rparr> 16
     = Some \<lparr>Pix = replicate 8 0, Stride = 1, MinX = 0, MinY = 0, MaxX = 1, MaxY = 8\<rparr>
   \<and> replicate 8 (0::uint8) \<noteq> replicate 8 255"
  using ToAvarage_white_1x8 by simp

section \<open>What the filters leave unchanged\<close>

lemma frame_refl: "frame g g"
  by (simp add: frame_def)

lemma for_each_invariant:
  assumes "for_each xs body s = Some s'" and "P s"
    and "\<And>x s s'. x \<in> set xs \<Longrightarrow> P s \<Longrightarrow> body x s = Some s' \<Longrightarrow> P s'"
  shows "P s'"
  using assms
proof (induction xs arbitrary: s)
  case Nil
  then show ?case by simp
next
  case (Cons x xs)
  from Cons.prems(1) obtain s1 where s1: "body x s = Some s1" "for_each xs body s1 = Some s'"
    by (auto split: option.splits)
  from Cons.prems(3) [of x s s1] Cons.prems(2) s1(1) have P1: "P s1" by simp
  show ?case
    by (rule Cons.IH [OF s1(2) P1]) (use Cons.prems(3) in auto)
qed

lemma in_int_range: "x \<in> set (int_range lo hi) \<longleftrightarrow> lo \<le> x \<and> x < hi"
  by (auto simp: int_range_def)

lemma negative_offset:
  assumes "MaxX g - MinX g \<le> Stride g" "y < MinY g" "MinX g \<le> x" "x < MaxX g"
  shows "(y - MinY g) * Stride g + x - MinX g < 0"
proof -
  have st: "0 \<le> Stride g" using assms by linarith
  have "(y - MinY g) * Stride g \<le> (- 1) * Stride g"
    using assms(2) st by (intro mult_right_mono) auto
  with assms show ?thesis by linarith
qed

lemma pixel_frame:
  assumes "frame g (the_img s)" and "MaxX g - MinX g \<le> Stride g"
    and "MinX g \<le> x" "x < MaxX g" "y < MaxY g"
    and "pixel stat sz ((y - MinY g) * Stride g) x s = Some s'"
  shows "frame g (the_img s') \<and> the_lines s' = the_lines s"
proof -
  let ?o = "(y - MinY g) * Stride g + x - MinX g"
  from assms(1) have geo: "MinX (the_img s) = MinX g" "length (Pix (the_img s)) = length (Pix g)"
    by (simp_all add: frame_def)
  from assms(6) obtain h v p where
    p: "store_at (Pix (the_img s)) ?o v = Some p"
    and s': "s' = s\<lparr>the_img := (the_img s)\<lparr>Pix := p\<rparr>, the_hist := h\<rparr>"
    by (auto simp: pixel_def geo bind_eq_Some_conv)
  from p have o: "0 \<le> ?o" "?o < int (length (Pix g))" and pe: "p = (Pix (the_img s))[nat ?o := v]"
    by (auto simp: store_at_def geo split: if_splits)
  have y: "MinY g \<le> y"
  proof (rule ccontr)
    assume "\<not> MinY g \<le> y"
    then have "?o < 0" using negative_offset [of g y x] assms(2-4) by simp
    with o show False by simp
  qed
  have off: "?o = pixel_offset g x y" by (simp add: pixel_offset_def)
  show ?thesis
    unfolding s' pe using assms(1) assms(3-5) y off o
    by (auto simp: frame_def nth_list_update)
qed


lemma load_line_img: "load_line sz y s = Some s' \<Longrightarrow> the_img s' = the_img s \<and> the_hist s' = the_hist s"
  by (auto simp: load_line_def Let_def bind_eq_Some_conv)

lemma white_line_img: "white_line w s = Some s' \<Longrightarrow> the_img s' = the_img s \<and> the_hist s' = the_hist s"
  by (auto simp: white_line_def bind_eq_Some_conv)

lemma whiten_img: "whiten s = Some (w, s') \<Longrightarrow> the_img s' = the_img s \<and> the_hist s' = the_hist s"
  by (auto simp: whiten_def Let_def bind_eq_Some_conv)

lemma newLines_nonneg: "newLines g sz = Some ls \<Longrightarrow> 0 \<le> sz"
  by (auto simp: newLines_def split: if_splits)

lemma columns_frame:
  assumes "for_each (int_range (MinX g) (MaxX g)) (pixel stat sz ((y - MinY g) * Stride g)) s = Some s'"
    and "frame g (the_img s)" and "MaxX g - MinX g \<le> Stride g" and "y < MaxY g"
  shows "frame g (the_img s')"
  using assms(1,2)
proof (rule for_each_invariant [where P = "\<lambda>s. frame g (the_img s)"])
  fix x s1 s2
  assume "x \<in> set (int_range (MinX g) (MaxX g))" "frame g (the_img s1)"
    "pixel stat sz ((y - MinY g) * Stride g) x s1 = Some s2"
  with pixel_frame [of g s1 x y stat sz s2] assms(3,4) show "frame g (the_img s2)"
    by (simp add: in_int_range)
qed

lemma main_row_frame:
  assumes "main_row stat sz y s = Some s'"
    and "frame g (the_img s)" and "MaxX g - MinX g \<le> Stride g" and "y < MaxY g"
  shows "frame g (the_img s')"
proof -
  from assms(2) have geo: "MinX (the_img s) = MinX g" "MaxX (the_img s) = MaxX g"
    "MinY (the_img s) = MinY g" "Stride (the_img s) = Stride g"
    by (simp_all add: frame_def)
  from assms(1) obtain s1 where s1: "load_line sz y s = Some s1"
    and cols: "for_each (int_range (MinX g) (MaxX g)) (pixel stat sz ((y - MinY g) * Stride g)) s1 = Some s'"
    by (auto simp: main_row_def Let_def geo bind_eq_Some_conv)
  from load_line_img [OF s1] assms(2) have "frame g (the_img s1)" by simp
  from columns_frame [OF cols this assms(3,4)] show ?thesis .
qed

lemma main_loop_frame:
  assumes "for_each (main_rows g sz) (main_row stat sz) s = Some s'"
    and "frame g (the_img s)" and "MaxX g - MinX g \<le> Stride g" and "0 \<le> sz"
  shows "frame g (the_img s')"
  using assms(1,2)
proof (rule for_each_invariant [where P = "\<lambda>s. frame g (the_img s)"])
  fix y s1 s2
  assume y: "y \<in> set (main_rows g sz)" and "frame g (the_img s1)" "main_row stat sz y s1 = Some s2"
  moreover from y assms(4) have "y < MaxY g"
    by (auto simp: main_rows_def limit_def in_int_range dest: pos_imp_zdiv_nonneg_iff [THEN iffD2])
  ultimately show "frame g (the_img s2)"
    using main_row_frame assms(3) by blast
qed

lemma tail_row_frame:
  assumes "tail_row stat sz w y s = Some s'"
    and "frame g (the_img s)" and "MaxX g - MinX g \<le> Stride g" and "y < MaxY g"
  shows "frame g (the_img s')"
proof -
  from assms(2) have geo: "MinX (the_img s) = MinX g" "MaxX (the_img s) = MaxX g"
    "MinY (the_img s) = MinY g" "Stride (the_img s) = Stride g"
    by (simp_all add: frame_def)
  from assms(1) obtain s1 where s1: "white_line w s = Some s1"
    and cols: "for_each (int_range (MinX g) (MaxX g)) (pixel stat sz ((y - MinY g) * Stride g)) s1 = Some s'"
    by (auto simp: tail_row_def Let_def geo bind_eq_Some_conv)
  from white_line_img [OF s1] assms(2) have "frame g (the_img s1)" by simp
  from columns_frame [OF cols this assms(3,4)] show ?thesis .
qed

lemma tail_pixel_frame:
  assumes "tail_pixel stat sz w (y, x) s = Some s'"
    and "frame g (the_img s)" and "MaxX g - MinX g \<le> Stride g"
    and "MinX g \<le> x" "x < MaxX g" "y < MaxY g"
  shows "frame g (the_img s')"
proof -
  from assms(2) have geo: "MinY (the_img s) = MinY g" "Stride (the_img s) = Stride g"
    by (simp_all add: frame_def)
  from assms(1) obtain s1 where s1: "white_line w s = Some s1"
    and px: "pixel stat sz ((y - MinY g) * Stride g) x s1 = Some s'"
    by (auto simp: tail_pixel_def Let_def geo bind_eq_Some_conv)
  from white_line_img [OF s1] assms(2) have "frame g (the_img s1)" by simp
  from pixel_frame [OF this assms(3-6) px] show ?thesis by simp
qed

lemma ToAvarage_frame:
  assumes "ToAvarage g size_u = Some g'" and "MaxX g - MinX g \<le> Stride g"
  shows "frame g g'"
proof (cases "(MaxX g - MinX g) * (MaxY g - MinY g) > 0 \<and> size_u > 1")
  case False
  with assms(1) show ?thesis by (auto simp: ToAvarage_def frame_refl)
next
  case True
  let ?sz = "sint size_u"
  let ?stat = "\<lambda>h. avarage h ?sz"
  from assms(1) True obtain lines0 s1 w s2 s3 where
    nl: "newLines g ?sz = Some lines0"
    and main: "for_each (main_rows g ?sz) (main_row ?stat ?sz)
                 \<lparr>the_img = g, the_lines = lines0, the_hist = replicate 256 0\<rparr> = Some s1"
    and wh: "whiten s1 = Some (w, s2)"
    and tail: "for_each (tail_rows g ?sz) (tail_row ?stat ?sz w) s2 = Some s3"
    and g': "g' = the_img s3"
    by (auto simp: ToAvarage_def Let_def bind_eq_Some_conv)
  have sz: "0 \<le> ?sz" using nl by (rule newLines_nonneg)
  have "frame g (the_img s1)"
    using main_loop_frame [OF main _ assms(2) sz] by (simp add: frame_refl)
  with whiten_img [OF wh] have f2: "frame g (the_img s2)" by simp
  have "frame g (the_img s3)"
    using tail f2
  proof (rule for_each_invariant [where P = "\<lambda>s. frame g (the_img s)"])
    fix y sa sb
    assume y: "y \<in> set (tail_rows g ?sz)" and fa: "frame g (the_img sa)"
      and body: "tail_row ?stat ?sz w y sa = Some sb"
    from y have yb: "y < MaxY g" by (simp add: tail_rows_def in_int_range)
    from tail_row_frame [OF body fa assms(2) yb] show "frame g (the_img sb)" .
  qed
  with g' show ?thesis by simp
qed

lemma ToMedian_frame:
  assumes "ToMedian g size_u = Some g'" and "MaxX g - MinX g \<le> Stride g"
  shows "frame g g'"
proof (cases "(MaxX g - MinX g) * (MaxY g - MinY g) > 0 \<and> size_u > 1")
  case False
  with assms(1) show ?thesis by (auto simp: ToMedian_def frame_refl)
next
  case True
  let ?sz = "sint size_u"
  let ?stat = "\<lambda>h. Some (median h)"
  from assms(1) True obtain lines0 s1 w s2 s3 where
    nl: "newLines g ?sz = Some lines0"
    and main: "for_each (main_rows g ?sz) (main_row ?stat ?sz)
                 \<lparr>the_img = g, the_lines = lines0, the_hist = replicate 256 0\<rparr> = Some s1"
    and wh: "whiten s1 = Some (w, s2)"
    and tail: "for_each (zip (tail_rows g ?sz) (int_range (MinX g) (MaxX g)))
                 (tail_pixel ?stat ?sz w) s2 = Some s3"
    and g': "g' = the_img s3"
    by (auto simp: ToMedian_def Let_def bind_eq_Some_conv)
  have sz: "0 \<le> ?sz" using nl by (rule newLines_nonneg)
  have "frame g (the_img s1)"
    using main_loop_frame [OF main _ assms(2) sz] by (simp add: frame_refl)
  with whiten_img [OF wh] have f2: "frame g (the_img s2)" by simp
  have "frame g (the_img s3)"
    using tail f2
  proof (rule for_each_invariant [where P = "\<lambda>s. frame g (the_img s)"])
    fix yx sa sb
    assume yx: "yx \<in> set (zip (tail_rows g ?sz) (int_range (MinX g) (MaxX g)))"
      and fa: "frame g (the_img sa)"
      and body: "tail_pixel ?stat ?sz w yx sa = Some sb"
    obtain y x where [simp]: "yx = (y, x)" by (cases yx)
    from yx have "y \<in> set (tail_rows g ?sz)" "x \<in> set (int_range (MinX g) (MaxX g))"
      by (auto dest: set_zip_leftD set_zip_rightD)
    then have yb: "y < MaxY g" and xb: "MinX g \<le> x" "x < MaxX g"
      by (simp_all add: tail_rows_def in_int_range)
    from tail_pixel_frame [OF _ fa assms(2) xb yb] body show "frame g (the_img sb)" by simp
  qed
  with g' show ?thesis by simp
qed

lemma slack_not_pixel:
  assumes "MaxX g - MinX g \<le> Stride g" "0 \<le> ry" "MaxX g - MinX g \<le> rx" "rx < Stride g"
    and "MinX g \<le> x" "x < MaxX g" "MinY g \<le> y"
  shows "ry * Stride g + rx \<noteq> pixel_offset g x y"
proof
  assume eq: "ry * Stride g + rx = pixel_offset g x y"
  let ?S = "Stride g"
  have S: "0 < ?S" using assms by linarith
  have rx': "0 \<le> x - MinX g" "x - MinX g < ?S" using assms by linarith+
  have rx: "0 \<le> rx" using assms by linarith
  from eq have "(ry * ?S + rx) mod ?S = ((y - MinY g) * ?S + (x - MinX g)) mod ?S"
    by (simp add: pixel_offset_def)
  then have "rx = x - MinX g" using rx rx' assms(4) by simp
  with assms show False by linarith
qed

text \<open>
  C10. \<open>ToMedian\<close> and \<open>ToAvarage\<close> write only the bytes of \<open>Pix\<close> at the offsets
  \<open>(y - Rect.Min.Y) * Stride + (x - Rect.Min.X)\<close> of coordinates inside \<open>Rect\<close>: every
  other byte keeps its value, in particular the slack bytes at the end of each row
  when \<open>Stride\<close> exceeds the width, and \<open>Rect\<close>, \<open>Stride\<close> and the length of \<open>Pix\<close>
  are unchanged. (\<open>Stride\<close> is at least the width, as in every image.)
\<close>

theorem filters_frame:
  assumes "ToMedian g size_u = Some g' \<or> ToAvarage g size_u = Some g'"
    and "MaxX g - MinX g \<le> Stride g"
  shows "Stride g' = Stride g \<and> MinX g' = MinX g \<and> MinY g' = MinY g
         \<and> MaxX g' = MaxX g \<and> MaxY g' = MaxY g
         \<and> length (Pix g') = length (Pix g)
         \<and> (\<forall>k < length (Pix g).
              (\<forall>x y. MinX g \<le> x \<and> x < MaxX g \<and> MinY g \<le> y \<and> y < MaxY g
                 \<longrightarrow> int k \<noteq> (y - MinY g) * Stride g + (x - MinX g))
              \<longrightarrow> Pix g' ! k = Pix g ! k)
         \<and> (\<forall>ry rx. 0 \<le> ry \<and> 0 \<le> rx \<and> MaxX g - MinX g \<le> rx \<and> rx < Stride g
                 \<and> ry * Stride g + rx < int (length (Pix g))
              \<longrightarrow> Pix g' ! nat (ry * Stride g + rx) = Pix g ! nat (ry * Stride g + rx))"
proof -
  from assms have f: "frame g g'" using ToMedian_frame ToAvarage_frame by blast
  have slack: "Pix g' ! nat (ry * Stride g + rx) = Pix g ! nat (ry * Stride g + rx)"
    if "0 \<le> ry \<and> 0 \<le> rx \<and> MaxX g - MinX g \<le> rx \<and> rx < Stride g
        \<and> ry * Stride g + rx < int (length (Pix g))" for ry rx
  proof -
    let ?k = "nat (ry * Stride g + rx)"
    have "0 \<le> ry * Stride g" using that by (intro mult_nonneg_nonneg) auto
    with that have nn: "0 \<le> ry * Stride g + rx" by linarith
    with that have k: "?k < length (Pix g)" by linarith
    have "int ?k \<noteq> pixel_offset g x y"
      if "MinX g \<le> x \<and> x < MaxX g \<and> MinY g \<le> y \<and> y < MaxY g" for x y
      using slack_not_pixel [of g ry rx x y] that \<open>0 \<le> ry \<and> _\<close> assms(2) nn by simp
    with f k show ?thesis unfolding frame_def by blast
  qed
  from f slack show ?thesis
    unfolding frame_def pixel_offset_def by blast
qed

lemma ToAvarage_stride_3:
  "ToAvarage \<lparr>Pix = [0, 0, 9, 0, 0, 9], Stride = 3, MinX = 0, MinY = 0, MaxX = 2, MaxY = 2\<rparr> 2
     = Some \<lparr>Pix = [127, 0, 9, 191, 127, 9], Stride = 3, MinX = 0, MinY = 0, MaxX = 2, MaxY = 2\<rparr>"
  by code_simp

theorem filters_frame_witness:
  "(ToMedian \<lparr>Pix = [0, 0, 9, 0, 0, 9], Stride = 3, MinX = 0, MinY = 0, MaxX = 2, MaxY = 2\<rparr> 2
      = Some \<lparr>Pix = [127, 0, 9, 191, 127, 9], Stride = 3, MinX = 0, MinY = 0, MaxX = 2, MaxY = 2\<rparr>
    \<or> ToAvarage \<lparr>Pix = [0, 0, 9, 0, 0, 9], Stride = 3, MinX = 0, MinY = 0, MaxX = 2, MaxY = 2\<rparr> 2
      = Some \<lparr>Pix = [127, 0, 9, 191, 127, 9], Stride = 3, MinX = 0, MinY = 0, MaxX = 2, MaxY = 2\<rparr>)
   \<and> MaxX \<lparr>Pix = [0, 0, 9, 0, 0, 9], Stride = 3, MinX = 0, MinY = 0, MaxX = 2, MaxY = 2\<rparr>
       - MinX \<lparr>Pix = [0, 0, 9, 0, 0, 9], Stride = 3, MinX = 0, MinY = 0, MaxX = 2, MaxY = 2\<rparr>
       \<le> Stride \<lparr>Pix = [0, 0, 9, 0, 0, 9], Stride = 3, MinX = 0, MinY = 0, MaxX = 2, MaxY = 2\<rparr>
   \<and> Pix \<lparr>Pix = [127, 0, 9, 191, 127, 9], Stride = 3, MinX = 0, MinY = 0, MaxX = 2, MaxY = 2\<rparr>
         ! nat (1 * 3 + 2)
       = Pix \<lparr>Pix = [0, 0, 9, 0, 0, 9], Stride = 3, MinX = 0, MinY = 0, MaxX = 2, MaxY = 2\<rparr>
         ! nat (1 * 3 + 2)"
proof -
  let ?g = "\<lparr>Pix = [0, 0, 9, 0, 0, 9], Stride = 3, MinX = 0, MinY = 0, MaxX = 2, MaxY = 2\<rparr>"
  let ?g' = "\<lparr>Pix = [127, 0, 9, 191, 127, 9], Stride = 3, MinX = 0, MinY = 0, MaxX = 2, MaxY = 2\<rparr>"
  have run: "ToMedian ?g 2 = Some ?g' \<or> ToAvarage ?g 2 = Some ?g'"
    using ToAvarage_stride_3 by simp
  have stride: "MaxX ?g - MinX ?g \<le> Stride ?g" by simp
  from filters_frame [OF run stride]
  have "\<forall>ry rx. 0 \<le> ry \<and> 0 \<le> rx \<and> MaxX ?g - MinX ?g \<le> rx \<and> rx < Stride ?g
                 \<and> ry * Stride ?g + rx < int (length (Pix ?g))
              \<longrightarrow> Pix ?g' ! nat (ry * Stride ?g + rx) = Pix ?g ! nat (ry * Stride ?g + rx)"
    by blast
  from this [rule_format, of 1 2] have "Pix ?g' ! nat (1 * 3 + 2) = Pix ?g ! nat (1 * 3 + 2)"
    by simp
  with run stride show ?thesis by blast
qed

section \<open>The row-window buffer\<close>

lemma row_bounds:
  assumes "well_formed g" "MinY g \<le> r" "r < MaxY g"
  shows "0 \<le> (r - MinY g) * Stride g"
    and "(r - MinY g) * Stride g + (MaxX g - MinX g) \<le> int (length (Pix g))"
proof -
  from assms(1) have S: "0 \<le> Stride g" by (simp add: well_formed_def)
  with assms(2) show "0 \<le> (r - MinY g) * Stride g" by simp
  have le: "(r - MinY g) * Stride g \<le> (MaxY g - MinY g - 1) * Stride g"
    using assms(3) S by (intro mult_right_mono) auto
  from assms(1) have "(MaxY g - MinY g - 1) * Stride g + (MaxX g - MinX g) \<le> int (length (Pix g))"
    by (simp add: well_formed_def)
  with le show "(r - MinY g) * Stride g + (MaxX g - MinX g) \<le> int (length (Pix g))"
    by linarith
qed

lemma length_sub_slice: "b \<le> length xs \<Longrightarrow> length (sub_slice xs a b) = b - a"
  by (simp add: sub_slice_def)

lemma length_image_row:
  assumes "well_formed g"
  shows "length (image_row g r) = nat (MaxX g - MinX g)"
proof (cases "MinY g \<le> r \<and> r < MaxY g")
  case True
  with row_bounds [OF assms, of r]
  have b: "0 \<le> (r - MinY g) * Stride g"
    "(r - MinY g) * Stride g + (MaxX g - MinX g) \<le> int (length (Pix g))" by simp_all
  from assms have W: "0 < MaxX g - MinX g" by (simp add: well_formed_def)
  have "nat ((r - MinY g) * Stride g + (MaxX g - MinX g)) \<le> length (Pix g)"
    using b by linarith
  then have "length (image_row g r) =
     nat ((r - MinY g) * Stride g + (MaxX g - MinX g)) - nat ((r - MinY g) * Stride g)"
    using True by (simp add: image_row_def length_sub_slice)
  also have "\<dots> = nat (MaxX g - MinX g)" using b W by linarith
  finally show ?thesis .
next
  case False
  then show ?thesis by (auto simp: image_row_def)
qed

lemma length_padded_row:
  assumes "well_formed g" "2 \<le> sz"
  shows "length (padded_row g sz r) = nat (MaxX g - MinX g + sz - 1)"
proof -
  from assms(1) have W: "0 < MaxX g - MinX g" by (simp add: well_formed_def)
  have h: "0 \<le> sz div 2" "0 \<le> sz - 1 - sz div 2" using assms(2) by linarith+
  show ?thesis
    using W h by (simp add: padded_row_def length_image_row [OF assms(1)])
qed

lemma padded_row_white:
  assumes "well_formed g" "2 \<le> sz" "\<not> (MinY g \<le> r \<and> r < MaxY g)"
  shows "padded_row g sz r = replicate (nat (MaxX g - MinX g + sz - 1)) 255"
proof -
  from assms(1) have W: "0 < MaxX g - MinX g" by (simp add: well_formed_def)
  have h: "0 \<le> sz div 2" "0 \<le> sz - 1 - sz div 2" using assms(2) by linarith+
  have "nat (sz div 2) + (nat (MaxX g - MinX g) + nat (sz - 1 - sz div 2))
        = nat (MaxX g - MinX g + sz - 1)"
    using W h by linarith
  moreover from assms(3) have "image_row g r = replicate (nat (MaxX g - MinX g)) 255"
    by (auto simp: image_row_def)
  ultimately show ?thesis
    by (simp add: padded_row_def flip: replicate_add)
qed

text \<open>Copying a row into a line that has the length of a padded row gives the padded row.\<close>

lemma copy_from_padded:
  fixes line :: "uint8 list"
  assumes "2 \<le> sz" "length line = nat (w + sz - 1)" "length src = nat w" "0 < w"
    and "take (nat (sz div 2)) line = replicate (nat (sz div 2)) 255"
    and "drop (nat (sz div 2) + nat w) line = replicate (nat (sz - 1 - sz div 2)) 255"
  shows "copy_from line (sz div 2) src =
           Some (replicate (nat (sz div 2)) 255 @ src @ replicate (nat (sz - 1 - sz div 2)) 255)"
proof -
  have h: "0 \<le> sz div 2" "0 \<le> sz - 1 - sz div 2" using assms(1) by linarith+
  have le: "sz div 2 \<le> int (length line)" using assms h by linarith
  have "length src \<le> length (drop (nat (sz div 2)) line)"
    using assms h by simp
  then have "copy_go (drop (nat (sz div 2)) line) src
             = src @ drop (nat w) (drop (nat (sz div 2)) line)"
    by (simp add: copy_go_def assms(3))
  also have "drop (nat w) (drop (nat (sz div 2)) line) = replicate (nat (sz - 1 - sz div 2)) 255"
    using assms(6) by (simp add: add.commute)
  finally show ?thesis
    using le h assms(5) by (simp add: copy_from_def)
qed

lemma padded_row_shape:
  assumes "well_formed g" "2 \<le> sz"
  shows "take (nat (sz div 2)) (padded_row g sz r) = replicate (nat (sz div 2)) 255"
    and "drop (nat (sz div 2) + nat (MaxX g - MinX g)) (padded_row g sz r)
         = replicate (nat (sz - 1 - sz div 2)) 255"
  by (simp_all add: padded_row_def length_image_row [OF assms(1)])

lemma nth_sub_slice: "b \<le> length xs \<Longrightarrow> i < b - a \<Longrightarrow> sub_slice xs a b ! i = xs ! (a + i)"
  by (simp add: sub_slice_def)

lemma ahead_row:
  assumes wf: "well_formed g" and ah: "ahead g y s"
    and r: "y \<le> r" "MinY g \<le> r" "r < MaxY g"
  shows "slice3 (Pix (the_img s)) ((r - MinY g) * Stride g)
           ((r - MinY g) * Stride g + (MaxX g - MinX g)) = Some (image_row g r)"
proof -
  let ?a = "(r - MinY g) * Stride g"
  let ?b = "?a + (MaxX g - MinX g)"
  from row_bounds [OF wf r(2,3)] have b: "0 \<le> ?a" "?b \<le> int (length (Pix g))" .
  from wf have W: "0 < MaxX g - MinX g" and S: "0 \<le> Stride g" by (simp_all add: well_formed_def)
  from ah have len: "length (Pix (the_img s)) = length (Pix g)" by (simp add: ahead_def)
  have nb: "nat ?b \<le> length (Pix g)" using b by linarith
  have ya: "(y - MinY g) * Stride g \<le> ?a" using r(1) S by (intro mult_right_mono) auto
  have "sub_slice (Pix (the_img s)) (nat ?a) (nat ?b) = sub_slice (Pix g) (nat ?a) (nat ?b)"
  proof (rule nth_equalityI)
    show "length (sub_slice (Pix (the_img s)) (nat ?a) (nat ?b))
          = length (sub_slice (Pix g) (nat ?a) (nat ?b))"
      using nb len by (simp add: length_sub_slice)
  next
    fix i assume "i < length (sub_slice (Pix (the_img s)) (nat ?a) (nat ?b))"
    then have i: "i < nat ?b - nat ?a" using nb len by (simp add: length_sub_slice)
    then have k: "nat ?a + i < length (Pix g)" using nb by linarith
    have "(y - MinY g) * Stride g \<le> int (nat ?a + i)" using ya b(1) by linarith
    with ah k have "Pix (the_img s) ! (nat ?a + i) = Pix g ! (nat ?a + i)"
      by (simp add: ahead_def)
    then show "sub_slice (Pix (the_img s)) (nat ?a) (nat ?b) ! i
               = sub_slice (Pix g) (nat ?a) (nat ?b) ! i"
      using nb len i by (simp add: nth_sub_slice)
  qed
  then show ?thesis
    using b W len r by (simp add: slice3_def image_row_def)
qed

lemma window_rows_shift:
  assumes "2 \<le> sz"
  shows "window_rows g sz y = padded_row g sz (y + sz div 2) # butlast (window_rows g sz (y - 1))"
proof -
  from assms obtain n where n: "nat sz = Suc n" by (cases "nat sz") auto
  have "[0 ..< Suc n] = 0 # map Suc [0 ..< n]"
    by (simp add: upt_conv_Cons map_Suc_upt del: upt_Suc)
  then have "window_rows g sz y
        = padded_row g sz (y + sz div 2)
          # map (\<lambda>i. padded_row g sz (y + sz div 2 - int (Suc i))) [0 ..< n]"
    by (simp add: window_rows_def n comp_def del: upt_Suc)
  moreover have "butlast (window_rows g sz (y - 1))
        = map (\<lambda>i. padded_row g sz (y - 1 + sz div 2 - int i)) [0 ..< n]"
    by (simp add: window_rows_def n map_butlast [symmetric] del: upt_Suc) simp
  moreover have "y + sz div 2 - (1 + int i) = y - 1 + sz div 2 - int i" for i by simp
  ultimately show ?thesis by simp
qed

lemma length_window_rows: "length (window_rows g sz y) = nat sz"
  by (simp add: window_rows_def)

lemma nth_window_rows:
  "i < nat sz \<Longrightarrow> window_rows g sz y ! i = padded_row g sz (y + sz div 2 - int i)"
  by (simp add: window_rows_def)

text \<open>The advance of the first loop, from the buffer of row \<open>y - 1\<close> to that of row \<open>y\<close>.\<close>

lemma load_line_step:
  assumes wf: "well_formed g" and sz: "2 \<le> sz"
    and ah: "ahead g y s" and buf: "the_lines s = window_rows g sz (y - 1)"
    and y: "MinY g \<le> y" "y + sz div 2 < MaxY g"
  shows "load_line sz y s = Some (s\<lparr>the_lines := window_rows g sz y\<rparr>)"
proof -
  let ?W = "MaxX g - MinX g"
  let ?h = "sz div 2"
  define last where "last = padded_row g sz (y - 1 + ?h - int (nat sz - 1))"
  define new where "new = padded_row g sz (y + ?h)"
  from ah have geo: "MinX (the_img s) = MinX g" "MinY (the_img s) = MinY g"
    "MaxX (the_img s) = MaxX g" "Stride (the_img s) = Stride g"
    by (simp_all add: ahead_def)
  from wf have W: "0 < ?W" by (simp add: well_formed_def)
  have h: "0 \<le> ?h" using sz by linarith
  have idx: "index_at (the_lines s) (int (length (the_lines s)) - 1) = Some last"
    using sz by (simp add: last_def buf index_at_def length_window_rows nth_window_rows nat_diff_distrib)
  have off: "(y - MinY g) * Stride g + ?h * Stride g = (y + ?h - MinY g) * Stride g"
    by (simp add: algebra_simps)
  have src: "slice3 (Pix (the_img s)) ((y + ?h - MinY g) * Stride g)
               ((y + ?h - MinY g) * Stride g + ?W) = Some (image_row g (y + ?h))"
    using ahead_row [OF wf ah, of "y + ?h"] y h by simp
  have cp: "copy_from last ?h (image_row g (y + ?h)) = Some new"
    using copy_from_padded [of sz last ?W "image_row g (y + ?h)"]
      sz W length_padded_row [OF wf sz] length_image_row [OF wf] padded_row_shape [OF wf sz]
    unfolding last_def new_def by (simp add: padded_row_def)
  have ne: "window_rows g sz (y - 1) \<noteq> []"
    using sz by (simp add: window_rows_def)
  have sh: "shiftLines ((the_lines s)[nat (int (length (the_lines s)) - 1) := new]) new
            = Some (window_rows g sz y)"
    using sz ne
    by (simp add: new_def shiftLines_def buf window_rows_shift [OF sz, of g y] length_window_rows
          butlast_list_update nat_diff_distrib)
  show ?thesis
    by (simp add: load_line_def Let_def geo idx off src cp sh)
qed

lemma pixel_lines: "pixel stat sz off x s = Some s' \<Longrightarrow> the_lines s' = the_lines s"
  by (auto simp: pixel_def bind_eq_Some_conv)

lemma pixel_ahead:
  assumes "pixel stat sz ((y - MinY g) * Stride g) x s = Some s'"
    and "ahead g (y + 1) s" and "MaxX g - MinX g \<le> Stride g" and "x < MaxX g"
  shows "ahead g (y + 1) s'"
proof -
  let ?o = "(y - MinY g) * Stride g + x - MinX g"
  from assms(2) have geo: "MinX (the_img s) = MinX g" "length (Pix (the_img s)) = length (Pix g)"
    by (simp_all add: ahead_def)
  from assms(1) obtain h v p where
    p: "store_at (Pix (the_img s)) ?o v = Some p"
    and s': "s' = s\<lparr>the_img := (the_img s)\<lparr>Pix := p\<rparr>, the_hist := h\<rparr>"
    by (auto simp: pixel_def geo bind_eq_Some_conv)
  from p have o: "0 \<le> ?o" and pe: "p = (Pix (the_img s))[nat ?o := v]"
    by (auto simp: store_at_def split: if_splits)
  have lt: "?o < (y + 1 - MinY g) * Stride g"
    using assms(3,4) by (simp add: algebra_simps)
  show ?thesis
    unfolding s' pe using assms(2) o lt
    by (auto simp: ahead_def nth_list_update)
qed

lemma ahead_mono:
  assumes "ahead g y s" "y \<le> y'" "0 \<le> Stride g"
  shows "ahead g y' s"
proof -
  have "(y - MinY g) * Stride g \<le> (y' - MinY g) * Stride g"
    using assms(2,3) by (intro mult_right_mono) auto
  with assms(1) show ?thesis unfolding ahead_def by (meson order_trans)
qed

lemma columns_ahead:
  assumes "for_each (int_range (MinX g) (MaxX g)) (pixel stat sz ((y - MinY g) * Stride g)) s = Some s'"
    and "ahead g (y + 1) s" and "MaxX g - MinX g \<le> Stride g"
  shows "ahead g (y + 1) s' \<and> the_lines s' = the_lines s"
  using assms(1)
proof (rule for_each_invariant [where P = "\<lambda>t. ahead g (y + 1) t \<and> the_lines t = the_lines s"])
  show "ahead g (y + 1) s \<and> the_lines s = the_lines s" using assms(2) by simp
next
  fix x s1 s2
  assume "x \<in> set (int_range (MinX g) (MaxX g))"
    and "ahead g (y + 1) s1 \<and> the_lines s1 = the_lines s"
    and "pixel stat sz ((y - MinY g) * Stride g) x s1 = Some s2"
  then show "ahead g (y + 1) s2 \<and> the_lines s2 = the_lines s"
    using pixel_ahead [of stat sz y g x s1 s2] pixel_lines [of stat sz _ x s1 s2] assms(3)
    by (simp add: in_int_range)
qed

lemma main_row_step:
  assumes wf: "well_formed g" and sz: "2 \<le> sz"
    and ah: "ahead g y s" and buf: "the_lines s = window_rows g sz (y - 1)"
    and y: "MinY g \<le> y" "y + sz div 2 < MaxY g"
    and run: "main_row stat sz y s = Some s'"
  shows "ahead g (y + 1) s' \<and> the_lines s' = window_rows g sz y"
proof -
  from ah have geo: "MinX (the_img s) = MinX g" "MinY (the_img s) = MinY g"
    "MaxX (the_img s) = MaxX g" "Stride (the_img s) = Stride g"
    by (simp_all add: ahead_def)
  from wf have S: "0 \<le> Stride g" "MaxX g - MinX g \<le> Stride g" by (simp_all add: well_formed_def)
  let ?s1 = "s\<lparr>the_lines := window_rows g sz y\<rparr>"
  from run load_line_step [OF wf sz ah buf y]
  have cols: "for_each (int_range (MinX g) (MaxX g)) (pixel stat sz ((y - MinY g) * Stride g)) ?s1
              = Some s'"
    by (simp add: main_row_def Let_def geo)
  have "ahead g (y + 1) ?s1" using ahead_mono [OF ah _ S(1), of "y + 1"] by (simp add: ahead_def)
  from columns_ahead [OF cols this S(2)] show ?thesis by simp
qed

lemma int_range_Cons: "lo < hi \<Longrightarrow> int_range lo hi = lo # int_range (lo + 1) hi"
  by (simp add: int_range_def upto_rec1)

lemma int_range_Nil: "hi \<le> lo \<Longrightarrow> int_range lo hi = []"
  by (simp add: int_range_def)

lemma for_each_range_invariant:
  assumes "for_each (int_range lo hi) body s = Some s'" and "lo \<le> hi" and "P lo s"
    and "\<And>y s s'. lo \<le> y \<Longrightarrow> y < hi \<Longrightarrow> P y s \<Longrightarrow> body y s = Some s' \<Longrightarrow> P (y + 1) s'"
  shows "P hi s'"
  using assms
proof (induction "nat (hi - lo)" arbitrary: lo s)
  case 0
  then have "lo = hi" by simp
  with 0 show ?case by (simp add: int_range_Nil)
next
  case (Suc n)
  then have lt: "lo < hi" by linarith
  from Suc.prems(1) obtain s1 where s1: "body lo s = Some s1"
    and rest: "for_each (int_range (lo + 1) hi) body s1 = Some s'"
    by (auto simp: int_range_Cons [OF lt] split: option.splits)
  from Suc.prems(4) [of lo s s1] lt Suc.prems(3) s1 have P1: "P (lo + 1) s1" by simp
  have n: "n = nat (hi - (lo + 1))" using Suc.hyps(2) by linarith
  show ?case
    by (rule Suc.hyps(1) [OF n rest _ P1]) (use lt Suc.prems(4) in auto)
qed

lemma slice3_row:
  assumes wf: "well_formed g" and r: "MinY g \<le> r" "r < MaxY g"
  shows "slice3 (Pix g) ((r - MinY g) * Stride g) ((r - MinY g) * Stride g + (MaxX g - MinX g))
         = Some (image_row g r)"
proof -
  from row_bounds [OF wf r] wf show ?thesis
    using r by (simp add: slice3_def image_row_def well_formed_def)
qed

lemma seed_line_step:
  assumes wf: "well_formed g" and sz: "2 \<le> sz"
    and i: "0 \<le> i" "i < sz" and y: "MinY g \<le> y" "y < MaxY g"
    and len: "length ls = nat sz" and shape: "ls ! nat i = padded_row g sz r"
  shows "seed_line g sz (i, y) ls = Some (ls[nat i := padded_row g sz y])"
proof -
  define line where "line = padded_row g sz r"
  define new where "new = padded_row g sz y"
  from wf have W: "0 < MaxX g - MinX g" by (simp add: well_formed_def)
  have idx: "index_at ls i = Some line"
    using i len shape by (simp add: index_at_def line_def)
  have cp: "copy_from line (sz div 2) (image_row g y) = Some new"
    using copy_from_padded [of sz line "MaxX g - MinX g" "image_row g y"]
      sz W length_padded_row [OF wf sz] length_image_row [OF wf] padded_row_shape [OF wf sz]
    unfolding line_def new_def by (simp add: padded_row_def)
  show ?thesis
    by (simp add: seed_line_def Let_def idx slice3_row [OF wf y] cp new_def)
qed

lemma seed_loop:
  assumes wf: "well_formed g" and sz: "2 \<le> sz"
  shows "(\<forall>(i, y) \<in> set ps. 0 \<le> i \<and> i < sz \<and> MinY g \<le> y \<and> y < MaxY g) \<Longrightarrow>
         length ls = nat sz \<Longrightarrow> (\<forall>j < nat sz. \<exists>r. ls ! j = padded_row g sz r) \<Longrightarrow>
         \<exists>ls'. for_each ps (seed_line g sz) ls = Some ls' \<and> length ls' = nat sz
            \<and> (\<forall>j < nat sz. (\<exists>y. (int j, y) \<in> set ps \<and> ls' ! j = padded_row g sz y)
                   \<or> ((\<forall>y. (int j, y) \<notin> set ps) \<and> ls' ! j = ls ! j))"
proof (induction ps arbitrary: ls)
  case Nil
  then show ?case by simp
next
  case (Cons p ps)
  obtain i y where p: "p = (i, y)" by (cases p)
  from Cons.prems(1) p have iy: "0 \<le> i" "i < sz" "MinY g \<le> y" "y < MaxY g" by auto
  have ni: "nat i < nat sz" using iy by linarith
  with Cons.prems(3) obtain r where r: "ls ! nat i = padded_row g sz r" by blast
  let ?ls1 = "ls[nat i := padded_row g sz y]"
  have step: "seed_line g sz (i, y) ls = Some ?ls1"
    by (rule seed_line_step [OF wf sz iy Cons.prems(2) r])
  have shape1: "\<forall>j < nat sz. \<exists>r. ?ls1 ! j = padded_row g sz r"
  proof (intro allI impI)
    fix j assume j: "j < nat sz"
    show "\<exists>r. ?ls1 ! j = padded_row g sz r"
    proof (cases "j = nat i")
      case True
      with j Cons.prems(2) show ?thesis by auto
    next
      case False
      with j Cons.prems(3) show ?thesis by simp
    qed
  qed
  have all: "\<forall>(i, y) \<in> set ps. 0 \<le> i \<and> i < sz \<and> MinY g \<le> y \<and> y < MaxY g"
    using Cons.prems(1) by simp
  have len1: "length ?ls1 = nat sz" using Cons.prems(2) by simp
  from Cons.IH [OF all len1 shape1]
  obtain ls' where ls': "for_each ps (seed_line g sz) ?ls1 = Some ls'" "length ls' = nat sz"
    and ch: "\<forall>j < nat sz. (\<exists>y. (int j, y) \<in> set ps \<and> ls' ! j = padded_row g sz y)
                   \<or> ((\<forall>y. (int j, y) \<notin> set ps) \<and> ls' ! j = ?ls1 ! j)"
    by auto
  have "(\<exists>y'. (int j, y') \<in> set (p # ps) \<and> ls' ! j = padded_row g sz y')
        \<or> ((\<forall>y'. (int j, y') \<notin> set (p # ps)) \<and> ls' ! j = ls ! j)" if j: "j < nat sz" for j
  proof -
    from ch j consider
      (a) y' where "(int j, y') \<in> set ps" "ls' ! j = padded_row g sz y'"
      | (b) "\<forall>y. (int j, y) \<notin> set ps" "ls' ! j = ?ls1 ! j" by blast
    then show ?thesis
    proof cases
      case a
      then show ?thesis by auto
    next
      case b
      show ?thesis
      proof (cases "int j = i")
        case True
        then have "nat i = j" by simp
        with b j Cons.prems(2) have "ls' ! j = padded_row g sz y" by simp
        with True p show ?thesis by auto
      next
        case False
        then have "nat i \<noteq> j" using iy by linarith
        with b have "ls' ! j = ls ! j" by simp
        with False b p show ?thesis by auto
      qed
    qed
  qed
  with ls' step p show ?case by simp
qed

lemma nth_int_range: "n < nat (hi - lo) \<Longrightarrow> int_range lo hi ! n = lo + int n"
  by (simp add: int_range_def)

lemma nth_rev_int_range:
  assumes "n < nat a"
  shows "rev (int_range 0 a) ! n = a - 1 - int n"
proof -
  have "rev (int_range 0 a) ! n = int_range 0 a ! (nat a - Suc n)"
    using assms by (simp add: rev_nth int_range_length)
  also have "\<dots> = 0 + int (nat a - Suc n)"
    using assms by (intro nth_int_range) simp
  also have "\<dots> = a - 1 - int n" using assms by linarith
  finally show ?thesis .
qed

lemma seed_pairs:
  "(i, y) \<in> set (zip (rev (int_range 0 a)) (int_range b c))
   \<longleftrightarrow> (\<exists>n. n < nat a \<and> n < nat (c - b) \<and> i = a - 1 - int n \<and> y = b + int n)"
proof
  assume "(i, y) \<in> set (zip (rev (int_range 0 a)) (int_range b c))"
  then obtain n where "rev (int_range 0 a) ! n = i" "int_range b c ! n = y"
    "n < nat a" "n < nat (c - b)"
    by (auto simp: in_set_zip int_range_length)
  then show "\<exists>n. n < nat a \<and> n < nat (c - b) \<and> i = a - 1 - int n \<and> y = b + int n"
    by (auto simp: nth_rev_int_range nth_int_range)
next
  assume "\<exists>n. n < nat a \<and> n < nat (c - b) \<and> i = a - 1 - int n \<and> y = b + int n"
  then obtain n where n: "n < nat a" "n < nat (c - b)" "i = a - 1 - int n" "y = b + int n"
    by blast
  then have "rev (int_range 0 a) ! n = i" "int_range b c ! n = y"
    by (simp_all add: nth_rev_int_range nth_int_range)
  with n(1,2) show "(i, y) \<in> set (zip (rev (int_range 0 a)) (int_range b c))"
    unfolding in_set_zip by (auto simp: int_range_length)
qed

lemma newLines_buffer:
  assumes wf: "well_formed g" and sz: "2 \<le> sz"
  shows "newLines g sz = Some (window_rows g sz (MinY g - 1))"
proof -
  let ?h = "sz div 2"
  let ?ps = "zip (rev (int_range 0 ?h)) (int_range (MinY g) (MaxY g))"
  let ?white = "replicate (nat (MaxX g - MinX g + sz - 1)) (255::uint8)"
  let ?ls0 = "replicate (nat sz) ?white"
  from wf have W: "0 < MaxX g - MinX g" by (simp add: well_formed_def)
  have h: "0 \<le> ?h" "?h < sz" using sz by linarith+
  have white: "padded_row g sz r = ?white" if "\<not> (MinY g \<le> r \<and> r < MaxY g)" for r
    using padded_row_white [OF wf sz that] .
  have pairs: "\<forall>(i, y) \<in> set ?ps. 0 \<le> i \<and> i < sz \<and> MinY g \<le> y \<and> y < MaxY g"
    using h by (auto simp: seed_pairs)
  have shape: "\<forall>j < nat sz. \<exists>r. ?ls0 ! j = padded_row g sz r"
  proof (intro allI impI)
    fix j assume "j < nat sz"
    then have "?ls0 ! j = padded_row g sz (MinY g - 1)"
      using white [of "MinY g - 1"] by simp
    then show "\<exists>r. ?ls0 ! j = padded_row g sz r" ..
  qed
  from seed_loop [OF wf sz pairs _ shape]
  obtain ls' where run: "for_each ?ps (seed_line g sz) ?ls0 = Some ls'" and len: "length ls' = nat sz"
    and ch: "\<forall>j < nat sz. (\<exists>y. (int j, y) \<in> set ?ps \<and> ls' ! j = padded_row g sz y)
                   \<or> ((\<forall>y. (int j, y) \<notin> set ?ps) \<and> ls' ! j = ?ls0 ! j)"
    by auto
  have "ls' = window_rows g sz (MinY g - 1)"
  proof (rule nth_equalityI)
    show "length ls' = length (window_rows g sz (MinY g - 1))"
      by (simp add: len length_window_rows)
  next
    fix j assume "j < length ls'"
    then have j: "j < nat sz" by (simp add: len)
    let ?r = "MinY g - 1 + ?h - int j"
    from ch j consider
      (a) y where "(int j, y) \<in> set ?ps" "ls' ! j = padded_row g sz y"
      | (b) "\<forall>y. (int j, y) \<notin> set ?ps" "ls' ! j = ?ls0 ! j" by blast
    then have "ls' ! j = padded_row g sz ?r"
    proof cases
      case a
      from a(1) have "y = ?r" by (auto simp: seed_pairs)
      with a(2) show ?thesis by simp
    next
      case b
      have "\<not> (MinY g \<le> ?r \<and> ?r < MaxY g)"
      proof
        assume in_img: "MinY g \<le> ?r \<and> ?r < MaxY g"
        define n where "n = nat (?h - 1 - int j)"
        from in_img have "n < nat ?h" "n < nat (MaxY g - MinY g)"
          "int j = ?h - 1 - int n" "?r = MinY g + int n"
          by (auto simp: n_def)
        then have "(int j, ?r) \<in> set ?ps" unfolding seed_pairs by blast
        with b(1) show False by blast
      qed
      from white [OF this] b(2) j show ?thesis by simp
    qed
    then show "ls' ! j = window_rows g sz (MinY g - 1) ! j"
      using j by (simp add: nth_window_rows)
  qed
  with run show ?thesis
    using sz W by (simp add: newLines_def Let_def setArrayValues_def)
qed

lemma main_loop_buffer:
  assumes wf: "well_formed g" and sz: "2 \<le> sz"
    and m: "MinY g \<le> m" "m \<le> limit g sz"
    and run: "for_each (int_range (MinY g) m) (main_row stat sz)
                \<lparr>the_img = g, the_lines = window_rows g sz (MinY g - 1), the_hist = h\<rparr> = Some s"
  shows "ahead g m s \<and> the_lines s = window_rows g sz (m - 1)"
  using run m(1)
proof (rule for_each_range_invariant
    [where P = "\<lambda>y t. ahead g y t \<and> the_lines t = window_rows g sz (y - 1)"])
  show "ahead g (MinY g) \<lparr>the_img = g, the_lines = window_rows g sz (MinY g - 1), the_hist = h\<rparr>
        \<and> the_lines \<lparr>the_img = g, the_lines = window_rows g sz (MinY g - 1), the_hist = h\<rparr>
          = window_rows g sz (MinY g - 1)"
    by (simp add: ahead_def)
next
  fix y t t'
  assume y: "MinY g \<le> y" "y < m"
    and P: "ahead g y t \<and> the_lines t = window_rows g sz (y - 1)"
    and step: "main_row stat sz y t = Some t'"
  from y m(2) have "y + sz div 2 < MaxY g" by (simp add: limit_def)
  from main_row_step [OF wf sz _ _ y(1) this step] P
  show "ahead g (y + 1) t' \<and> the_lines t' = window_rows g sz (y + 1 - 1)" by simp
qed

lemma whiten_buffer:
  assumes wf: "well_formed g" and sz: "2 \<le> sz" and buf: "the_lines s = window_rows g sz y"
  shows "whiten s = Some (white_row g sz,
           s\<lparr>the_lines := (window_rows g sz y)[nat sz - 1 := white_row g sz]\<rparr>)"
proof -
  define last where "last = window_rows g sz y ! (nat sz - 1)"
  have "last = padded_row g sz (y + sz div 2 - int (nat sz - 1))"
    using sz by (simp add: last_def nth_window_rows)
  then have len: "length last = nat (MaxX g - MinX g + sz - 1)"
    by (simp add: length_padded_row [OF wf sz])
  have idx: "index_at (the_lines s) (int (length (the_lines s)) - 1) = Some last"
    using sz by (simp add: buf index_at_def length_window_rows last_def nat_diff_distrib)
  have "setArrayValues last 255 = white_row g sz"
    by (simp add: setArrayValues_def white_row_def map_replicate_const len)
  moreover have "nat (int (length (the_lines s)) - 1) = nat sz - 1"
    using sz by (simp add: buf length_window_rows)
  ultimately show ?thesis
    unfolding whiten_def Let_def idx by (simp add: buf)
qed

lemma before_tail_window: "before_tail g sz (y + 1) (window_rows g sz y)"
  by (simp add: before_tail_def length_window_rows nth_window_rows)

lemma before_tail_whitened:
  "2 \<le> sz \<Longrightarrow> before_tail g sz (y + 1) ((window_rows g sz y)[nat sz - 1 := w])"
  by (simp add: before_tail_def length_window_rows nth_window_rows)

lemma white_line_step:
  assumes wf: "well_formed g" and sz: "2 \<le> sz" and y: "MaxY g \<le> y + sz div 2"
    and pre: "before_tail g sz y (the_lines s)"
  shows "white_line (white_row g sz) s = Some (s\<lparr>the_lines := window_rows g sz y\<rparr>)"
    and "window_rows g sz y = white_row g sz # butlast (the_lines s)"
proof -
  from pre have len: "length (the_lines s) = nat sz"
    and rows: "\<And>i. Suc i < nat sz \<Longrightarrow> the_lines s ! i = padded_row g sz (y - 1 + sz div 2 - int i)"
    by (simp_all add: before_tail_def)
  from len sz have ne: "the_lines s \<noteq> []" by auto
  have white: "padded_row g sz (y + sz div 2) = white_row g sz"
    using padded_row_white [OF wf sz, of "y + sz div 2"] y by (simp add: white_row_def)
  show eq: "window_rows g sz y = white_row g sz # butlast (the_lines s)"
  proof (rule nth_equalityI)
    show "length (window_rows g sz y) = length (white_row g sz # butlast (the_lines s))"
      using sz by (simp add: length_window_rows len)
  next
    fix j assume "j < length (window_rows g sz y)"
    then have j: "j < nat sz" by (simp add: length_window_rows)
    show "window_rows g sz y ! j = (white_row g sz # butlast (the_lines s)) ! j"
    proof (cases j)
      case 0
      with j white show ?thesis by (simp add: nth_window_rows)
    next
      case (Suc i)
      with j have i: "Suc i < nat sz" by simp
      have "y + sz div 2 - int (Suc i) = y - 1 + sz div 2 - int i" by simp
      then have "window_rows g sz y ! Suc i = padded_row g sz (y - 1 + sz div 2 - int i)"
        using i by (simp only: nth_window_rows)
      also have "\<dots> = the_lines s ! i" using rows [OF i] by simp
      also have "\<dots> = butlast (the_lines s) ! i" using i len by (simp add: nth_butlast)
      finally show ?thesis using Suc by simp
    qed
  qed
  show "white_line (white_row g sz) s = Some (s\<lparr>the_lines := window_rows g sz y\<rparr>)"
    using ne by (simp add: white_line_def shiftLines_def eq)
qed

lemma columns_lines:
  assumes "for_each xs (pixel stat sz off) s = Some s'"
  shows "the_lines s' = the_lines s"
  using assms
proof (rule for_each_invariant [where P = "\<lambda>t. the_lines t = the_lines s"])
  show "the_lines s = the_lines s" ..
next
  fix x t t' assume "the_lines t = the_lines s" "pixel stat sz off x t = Some t'"
  then show "the_lines t' = the_lines s" using pixel_lines [of stat sz off x t t'] by simp
qed

lemma tail_row_step:
  assumes wf: "well_formed g" and sz: "2 \<le> sz" and y: "MaxY g \<le> y + sz div 2"
    and pre: "before_tail g sz y (the_lines s)"
    and run: "tail_row stat sz (white_row g sz) y s = Some s'"
  shows "the_lines s' = window_rows g sz y"
proof -
  from run white_line_step(1) [OF wf sz y pre]
  obtain off xs where "for_each xs (pixel stat sz off) (s\<lparr>the_lines := window_rows g sz y\<rparr>) = Some s'"
    by (auto simp: tail_row_def Let_def)
  from columns_lines [OF this] show ?thesis by simp
qed

lemma tail_pixel_step:
  assumes wf: "well_formed g" and sz: "2 \<le> sz" and y: "MaxY g \<le> y + sz div 2"
    and pre: "before_tail g sz y (the_lines s)"
    and run: "tail_pixel stat sz (white_row g sz) (y, x) s = Some s'"
  shows "the_lines s' = window_rows g sz y"
proof -
  from run white_line_step(1) [OF wf sz y pre]
  obtain off where "pixel stat sz off x (s\<lparr>the_lines := window_rows g sz y\<rparr>) = Some s'"
    by (auto simp: tail_pixel_def Let_def)
  from pixel_lines [OF this] show ?thesis by simp
qed

lemma for_each_zip_range_invariant:
  assumes "for_each (zip (int_range a b) (int_range c d)) body s = Some s'"
    and "a \<le> b" and "b - a \<le> d - c" and "P a s"
    and "\<And>y x s s'. a \<le> y \<Longrightarrow> y < b \<Longrightarrow> P y s \<Longrightarrow> body (y, x) s = Some s' \<Longrightarrow> P (y + 1) s'"
  shows "P b s'"
  using assms
proof (induction "nat (b - a)" arbitrary: a c s)
  case 0
  then have "a = b" by simp
  with 0 show ?case by (simp add: int_range_Nil)
next
  case (Suc n)
  then have lt: "a < b" "c < d" by linarith+
  from Suc.prems(1) obtain s1 where s1: "body (a, c) s = Some s1"
    and rest: "for_each (zip (int_range (a + 1) b) (int_range (c + 1) d)) body s1 = Some s'"
    by (auto simp: int_range_Cons [OF lt(1)] int_range_Cons [OF lt(2)] split: option.splits)
  from Suc.prems(5) [of a s c s1] lt Suc.prems(4) s1 have P1: "P (a + 1) s1" by simp
  have n: "n = nat (b - (a + 1))" using Suc.hyps(2) by linarith
  show ?case
    by (rule Suc.hyps(1) [OF n rest _ _ P1]) (use lt Suc.prems(3,5) in auto)
qed

lemma tail_rows_buffer:
  assumes wf: "well_formed g" and sz: "2 \<le> sz"
    and m: "limit g sz \<le> m"
    and pre: "before_tail g sz (limit g sz) (the_lines s2)"
    and run: "for_each (int_range (limit g sz) m) (tail_row stat sz (white_row g sz)) s2 = Some s"
  shows "before_tail g sz m (the_lines s)"
  using run m pre
proof (rule for_each_range_invariant [where P = "\<lambda>y t. before_tail g sz y (the_lines t)"])
  fix y t t'
  assume y: "limit g sz \<le> y" and P: "before_tail g sz y (the_lines t)"
    and step: "tail_row stat sz (white_row g sz) y t = Some t'"
  from y have "MaxY g \<le> y + sz div 2" by (simp add: limit_def)
  from tail_row_step [OF wf sz this P step]
  show "before_tail g sz (y + 1) (the_lines t')" by (simp add: before_tail_window)
qed

lemma tail_pixels_buffer:
  assumes wf: "well_formed g" and sz: "2 \<le> sz"
    and m: "limit g sz \<le> m" "m - limit g sz \<le> MaxX g - MinX g"
    and pre: "before_tail g sz (limit g sz) (the_lines s2)"
    and run: "for_each (zip (int_range (limit g sz) m) (int_range (MinX g) (MaxX g)))
                (tail_pixel stat sz (white_row g sz)) s2 = Some s"
  shows "before_tail g sz m (the_lines s)"
  using run m pre
proof (rule for_each_zip_range_invariant [where P = "\<lambda>y t. before_tail g sz y (the_lines t)"])
  fix y x t t'
  assume y: "limit g sz \<le> y" and P: "before_tail g sz y (the_lines t)"
    and step: "tail_pixel stat sz (white_row g sz) (y, x) t = Some t'"
  from y have "MaxY g \<le> y + sz div 2" by (simp add: limit_def)
  from tail_pixel_step [OF wf sz this P step]
  show "before_tail g sz (y + 1) (the_lines t')" by (simp add: before_tail_window)
qed

text \<open>
  C6, amended. For a well-formed image with at least \<open>half = size / 2\<close> rows and a size
  of at least 2: \<open>newLines\<close> returns the buffer for the row above the image; each
  advance (\<open>load_line\<close> in the first loop, \<open>white_line\<close> in the last loop of either
  filter) returns, loses the row in the last slot, moves every other row one slot
  towards the end unchanged and puts the new row (image row \<open>y + half\<close>, white-padded,
  or the white line) into slot 0, so that after the advance for output row \<open>y\<close> slot
  \<open>i\<close> of the buffer holds the padded image row \<open>y + half - i\<close>, white outside the
  image; the image is not touched by an advance.
\<close>

theorem buffer_after_each_advance:
  assumes wf: "well_formed g" and sz: "2 \<le> sz" and half: "sz div 2 \<le> MaxY g - MinY g"
  shows "newLines g sz = Some (window_rows g sz (MinY g - 1))
    \<and> (MinY g \<le> y \<and> y < limit g sz
        \<and> for_each (int_range (MinY g) y) (main_row stat sz)
             \<lparr>the_img = g, the_lines = window_rows g sz (MinY g - 1), the_hist = h\<rparr> = Some s
       \<longrightarrow> (\<exists>s'. load_line sz y s = Some s' \<and> the_img s' = the_img s
              \<and> the_lines s' = padded_row g sz (y + sz div 2) # butlast (the_lines s)
              \<and> length (the_lines s') = nat sz
              \<and> (\<forall>i < nat sz. the_lines s' ! i = padded_row g sz (y + sz div 2 - int i))))
    \<and> (limit g sz \<le> y \<and> y < MaxY g
        \<and> for_each (main_rows g sz) (main_row stat sz)
             \<lparr>the_img = g, the_lines = window_rows g sz (MinY g - 1), the_hist = h\<rparr> = Some s1
        \<and> whiten s1 = Some (w, s2)
        \<and> (for_each (int_range (limit g sz) y) (tail_row stat sz w) s2 = Some t
            \<or> y - limit g sz \<le> MaxX g - MinX g
              \<and> for_each (zip (int_range (limit g sz) y) (int_range (MinX g) (MaxX g)))
                   (tail_pixel stat sz w) s2 = Some t)
       \<longrightarrow> (\<exists>t'. white_line w t = Some t' \<and> the_img t' = the_img t
              \<and> w = padded_row g sz (y + sz div 2)
              \<and> the_lines t' = w # butlast (the_lines t)
              \<and> length (the_lines t') = nat sz
              \<and> (\<forall>i < nat sz. the_lines t' ! i = padded_row g sz (y + sz div 2 - int i))))"
proof -
  let ?init = "\<lparr>the_img = g, the_lines = window_rows g sz (MinY g - 1), the_hist = h\<rparr>"
  have main: "\<exists>s'. load_line sz y s = Some s' \<and> the_img s' = the_img s
              \<and> the_lines s' = padded_row g sz (y + sz div 2) # butlast (the_lines s)
              \<and> length (the_lines s') = nat sz
              \<and> (\<forall>i < nat sz. the_lines s' ! i = padded_row g sz (y + sz div 2 - int i))"
    if y: "MinY g \<le> y" "y < limit g sz"
      and run: "for_each (int_range (MinY g) y) (main_row stat sz) ?init = Some s"
  proof -
    from main_loop_buffer [OF wf sz y(1) _ run] y(2)
    have inv: "ahead g y s" "the_lines s = window_rows g sz (y - 1)" by simp_all
    from y(2) have "y + sz div 2 < MaxY g" by (simp add: limit_def)
    define s' where "s' = s\<lparr>the_lines := window_rows g sz y\<rparr>"
    from load_line_step [OF wf sz inv y(1) \<open>y + sz div 2 < MaxY g\<close>]
    have 1: "load_line sz y s = Some s'" by (simp add: s'_def)
    have 2: "the_img s' = the_img s" and 3: "the_lines s' = window_rows g sz y"
      by (simp_all add: s'_def)
    have 4: "the_lines s' = padded_row g sz (y + sz div 2) # butlast (the_lines s)"
      unfolding 3 inv(2) by (rule window_rows_shift [OF sz])
    have 5: "length (the_lines s') = nat sz" by (simp add: 3 length_window_rows)
    have 6: "\<forall>i < nat sz. the_lines s' ! i = padded_row g sz (y + sz div 2 - int i)"
      by (simp add: 3 nth_window_rows)
    from 1 2 4 5 6 show ?thesis by blast
  qed
  have tail: "\<exists>t'. white_line w t = Some t' \<and> the_img t' = the_img t
              \<and> w = padded_row g sz (y + sz div 2)
              \<and> the_lines t' = w # butlast (the_lines t)
              \<and> length (the_lines t') = nat sz
              \<and> (\<forall>i < nat sz. the_lines t' ! i = padded_row g sz (y + sz div 2 - int i))"
    if y: "limit g sz \<le> y" "y < MaxY g"
      and run: "for_each (main_rows g sz) (main_row stat sz) ?init = Some s1"
      and wh: "whiten s1 = Some (w, s2)"
      and loop: "for_each (int_range (limit g sz) y) (tail_row stat sz w) s2 = Some t
            \<or> y - limit g sz \<le> MaxX g - MinX g
              \<and> for_each (zip (int_range (limit g sz) y) (int_range (MinX g) (MaxX g)))
                   (tail_pixel stat sz w) s2 = Some t"
  proof -
    from half have lim: "MinY g \<le> limit g sz" by (simp add: limit_def)
    from run have run': "for_each (int_range (MinY g) (limit g sz)) (main_row stat sz) ?init = Some s1"
      by (simp add: main_rows_def)
    from main_loop_buffer [OF wf sz lim _ run']
    have buf1: "the_lines s1 = window_rows g sz (limit g sz - 1)" by simp
    from whiten_buffer [OF wf sz buf1] wh
    have w: "w = white_row g sz"
      and s2: "the_lines s2 = (window_rows g sz (limit g sz - 1))[nat sz - 1 := white_row g sz]"
      by auto
    have pre2: "before_tail g sz (limit g sz) (the_lines s2)"
      using before_tail_whitened [OF sz, of g "limit g sz - 1" "white_row g sz"] by (simp add: s2)
    from loop have pre: "before_tail g sz y (the_lines t)"
    proof
      assume "for_each (int_range (limit g sz) y) (tail_row stat sz w) s2 = Some t"
      then have "for_each (int_range (limit g sz) y) (tail_row stat sz (white_row g sz)) s2 = Some t"
        by (simp add: w)
      from tail_rows_buffer [OF wf sz y(1) pre2 this] show ?thesis .
    next
      assume "y - limit g sz \<le> MaxX g - MinX g
              \<and> for_each (zip (int_range (limit g sz) y) (int_range (MinX g) (MaxX g)))
                   (tail_pixel stat sz w) s2 = Some t"
      then have le: "y - limit g sz \<le> MaxX g - MinX g"
        and zrun: "for_each (zip (int_range (limit g sz) y) (int_range (MinX g) (MaxX g)))
                   (tail_pixel stat sz (white_row g sz)) s2 = Some t"
        by (simp_all add: w)
      from tail_pixels_buffer [OF wf sz y(1) le pre2 zrun] show ?thesis .
    qed
    from y(1) have out: "MaxY g \<le> y + sz div 2" by (simp add: limit_def)
    have white: "padded_row g sz (y + sz div 2) = white_row g sz"
      using padded_row_white [OF wf sz, of "y + sz div 2"] out by (simp add: white_row_def)
    define t' where "t' = t\<lparr>the_lines := window_rows g sz y\<rparr>"
    from white_line_step [OF wf sz out pre]
    have 1: "white_line w t = Some t'"
      and shift: "window_rows g sz y = w # butlast (the_lines t)"
      by (simp_all add: t'_def w)
    have 2: "the_img t' = the_img t" and 3: "the_lines t' = window_rows g sz y"
      by (simp_all add: t'_def)
    have 4: "the_lines t' = w # butlast (the_lines t)"
      unfolding 3 by (rule shift)
    have 5: "length (the_lines t') = nat sz" by (simp add: 3 length_window_rows)
    have 6: "\<forall>i < nat sz. the_lines t' ! i = padded_row g sz (y + sz div 2 - int i)"
      by (simp add: 3 nth_window_rows)
    have 7: "w = padded_row g sz (y + sz div 2)" using white w by simp
    from 1 2 4 5 6 7 show ?thesis by blast
  qed
  from newLines_buffer [OF wf sz] main tail show ?thesis by blast
qed

text \<open>
  C6, as stated, fails on the code: the new row goes into slot 0, not into the last
  slot, and the rows are held in descending order. On the image of 1 by 3 pixels
  10, 20, 30 with \<open>size = 3\<close>, after the advance for row 0 slot 0 holds image row 1 and
  slot 2 the white row above the image, where the claim has row \<open>0 - half + 0 = -1\<close> in
  slot 0 and row \<open>0 - half + 2 = 1\<close> in slot 2.
\<close>

theorem buffer_row_order_counterexample:
  "newLines \<lparr>Pix = [10, 20, 30], Stride = 1, MinX = 0, MinY = 0, MaxX = 1, MaxY = 3\<rparr> 3
     = Some [[255, 10, 255], [255, 255, 255], [255, 255, 255]]
   \<and> load_line 3 0
        \<lparr>the_img = \<lparr>Pix = [10, 20, 30], Stride = 1, MinX = 0, MinY = 0, MaxX = 1, MaxY = 3\<rparr>,
         the_lines = [[255, 10, 255], [255, 255, 255], [255, 255, 255]], the_hist = []\<rparr>
     = Some
        \<lparr>the_img = \<lparr>Pix = [10, 20, 30], Stride = 1, MinX = 0, MinY = 0, MaxX = 1, MaxY = 3\<rparr>,
         the_lines = [[255, 20, 255], [255, 10, 255], [255, 255, 255]], the_hist = []\<rparr>
   \<and> [[255, 20, 255], [255, 10, 255], [255, 255, 255]] ! 0
       \<noteq> padded_row \<lparr>Pix = [10, 20, 30], Stride = 1, MinX = 0, MinY = 0, MaxX = 1, MaxY = 3\<rparr> 3
           (0 - 3 div 2 + 0)
   \<and> [[255, 20, 255], [255, 10, 255], [255, 255, 255]] ! 2
       \<noteq> padded_row \<lparr>Pix = [10, 20, 30], Stride = 1, MinX = 0, MinY = 0, MaxX = 1, MaxY = 3\<rparr> 3
           (0 - 3 div 2 + 2)"
  by code_simp

theorem buffer_after_each_advance_witness:
  "well_formed \<lparr>Pix = [10, 20, 30], Stride = 1, MinX = 0, MinY = 0, MaxX = 1, MaxY = 3\<rparr>
   \<and> (2::int) \<le> 3
   \<and> 3 div 2 \<le> MaxY \<lparr>Pix = [10, 20, 30], Stride = 1, MinX = 0, MinY = 0, MaxX = 1, MaxY = 3\<rparr>
                 - MinY \<lparr>Pix = [10, 20, 30], Stride = 1, MinX = 0, MinY = 0, MaxX = 1, MaxY = 3\<rparr>
   \<and> newLines \<lparr>Pix = [10, 20, 30], Stride = 1, MinX = 0, MinY = 0, MaxX = 1, MaxY = 3\<rparr> 3
       = Some [[255, 10, 255], [255, 255, 255], [255, 255, 255]]
   \<and> (\<exists>s'. load_line 3 0
              \<lparr>the_img = \<lparr>Pix = [10, 20, 30], Stride = 1, MinX = 0, MinY = 0, MaxX = 1, MaxY = 3\<rparr>,
               the_lines = [[255, 10, 255], [255, 255, 255], [255, 255, 255]],
               the_hist = replicate 256 0\<rparr> = Some s'
            \<and> the_lines s' = [[255, 20, 255], [255, 10, 255], [255, 255, 255]])
   \<and> for_each [0, 1] (main_row (\<lambda>h. Some 0) 3)
        \<lparr>the_img = \<lparr>Pix = [10, 20, 30], Stride = 1, MinX = 0, MinY = 0, MaxX = 1, MaxY = 3\<rparr>,
         the_lines = [[255, 10, 255], [255, 255, 255], [255, 255, 255]],
         the_hist = replicate 256 0\<rparr>
       = Some
          \<lparr>the_img = \<lparr>Pix = [0, 0, 30], Stride = 1, MinX = 0, MinY = 0, MaxX = 1, MaxY = 3\<rparr>,
           the_lines = [[255, 30, 255], [255, 20, 255], [255, 10, 255]],
           the_hist = (replicate 256 0)[10 := 1, 20 := 1, 30 := 1, 255 := 6]\<rparr>
   \<and> (\<exists>t'. white_line [255, 255, 255]
              \<lparr>the_img = \<lparr>Pix = [0, 0, 30], Stride = 1, MinX = 0, MinY = 0, MaxX = 1, MaxY = 3\<rparr>,
               the_lines = [[255, 30, 255], [255, 20, 255], [255, 255, 255]],
               the_hist = (replicate 256 0)[10 := 1, 20 := 1, 30 := 1, 255 := 6]\<rparr> = Some t'
            \<and> the_lines t' = [[255, 255, 255], [255, 30, 255], [255, 20, 255]])"
proof -
  let ?g = "\<lparr>Pix = [10, 20, 30], Stride = 1, MinX = 0, MinY = 0, MaxX = 1, MaxY = 3\<rparr>"
  let ?stat = "\<lambda>h::uint8 list. Some (0::uint8)"
  let ?init = "\<lparr>the_img = ?g, the_lines = window_rows ?g 3 (MinY ?g - 1),
                the_hist = replicate 256 0\<rparr>"
  let ?s1 = "\<lparr>the_img = \<lparr>Pix = [0, 0, 30], Stride = 1, MinX = 0, MinY = 0, MaxX = 1, MaxY = 3\<rparr>,
              the_lines = [[255, 30, 255], [255, 20, 255], [255, 10, 255]],
              the_hist = (replicate 256 0)[10 := 1, 20 := 1, 30 := 1, 255 := 6]\<rparr>"
  let ?s2 = "\<lparr>the_img = \<lparr>Pix = [0, 0, 30], Stride = 1, MinX = 0, MinY = 0, MaxX = 1, MaxY = 3\<rparr>,
              the_lines = [[255, 30, 255], [255, 20, 255], [255, 255, 255]],
              the_hist = (replicate 256 0)[10 := 1, 20 := 1, 30 := 1, 255 := 6]\<rparr>"
  have wf: "well_formed ?g" by (simp add: well_formed_def)
  have sz: "(2::int) \<le> 3" by simp
  have half: "3 div 2 \<le> MaxY ?g - MinY ?g" by simp
  have w0: "window_rows ?g 3 (MinY ?g - 1) = [[255, 10, 255], [255, 255, 255], [255, 255, 255]]"
    by code_simp
  have r0: "for_each (int_range (MinY ?g) 0) (main_row ?stat 3) ?init = Some ?init"
    by (simp add: int_range_def)
  have lim: "limit ?g 3 = 2" by (simp add: limit_def)
  have p0: "padded_row ?g 3 (0 + 3 div 2) # butlast (the_lines ?init)
            = [[255, 20, 255], [255, 10, 255], [255, 255, 255]]"
    by code_simp
  have r1: "for_each (main_rows ?g 3) (main_row ?stat 3) ?init = Some ?s1"
    by code_simp
  have mr: "main_rows ?g 3 = [0, 1]" by code_simp
  have wh: "whiten ?s1 = Some ([255, 255, 255], ?s2)" by code_simp
  have r2: "for_each (int_range (limit ?g 3) 2) (tail_row ?stat 3 [255, 255, 255]) ?s2 = Some ?s2"
    by (simp add: lim int_range_def)
  have p2: "[255, 255, 255] # butlast (the_lines ?s2)
            = [[255, 255, 255], [255, 30, 255], [255, 20, 255]]"
    by simp
  note main = buffer_after_each_advance [OF wf sz half, of 0 ?stat "replicate 256 0" ?init]
  note tail = buffer_after_each_advance [OF wf sz half, of 2 ?stat "replicate 256 0" _ ?s1
      "[255, 255, 255]" ?s2 ?s2]
  from main r0 lim p0 have A: "\<exists>s'. load_line 3 0 ?init = Some s'
        \<and> the_lines s' = [[255, 20, 255], [255, 10, 255], [255, 255, 255]]"
    by auto
  from tail r1 wh r2 lim p2 have B: "\<exists>t'. white_line [255, 255, 255] ?s2 = Some t'
        \<and> the_lines t' = [[255, 255, 255], [255, 30, 255], [255, 20, 255]]"
    by auto
  from main have N: "newLines ?g 3 = Some (window_rows ?g 3 (MinY ?g - 1))" by blast
  from wf sz half N A B r1 show ?thesis
    unfolding w0 mr by blast
qed

section \<open>Inputs on which the filters panic\<close>

text \<open>
  An image with fewer rows than \<open>size / 2\<close>: \<open>limit\<close> lies above the image, the last
  loop starts at a row above it and the first store has a negative index.
\<close>

lemma ToMedian_panics_on_short_image:
  "ToMedian \<lparr>Pix = [255], Stride = 1, MinX = 0, MinY = 0, MaxX = 1, MaxY = 1\<rparr> 4 = None"
  by code_simp

lemma ToAvarage_panics_on_short_image:
  "ToAvarage \<lparr>Pix = [255], Stride = 1, MinX = 0, MinY = 0, MaxX = 1, MaxY = 1\<rparr> 4 = None"
  by code_simp

text \<open>
  An image whose \<open>Rect.Min.X\<close> is not 0: \<open>fillHistogram\<close> gets the coordinate \<open>x\<close>, not
  the column \<open>x - Rect.Min.X\<close>, and reads the lines at \<open>x + j\<close>, beyond their end for
  the last columns.
\<close>

lemma fillHistogram_panics_beyond_line:
  "fillHistogram (replicate 256 0) (replicate 256 0) [[255, 255, 255], [255, 255, 255]] 2 2 = None"
  by code_simp

lemma ToAvarage_panics_on_subimage:
  "ToAvarage \<lparr>Pix = [255, 255], Stride = 2, MinX = 1, MinY = 0, MaxX = 3, MaxY = 1\<rparr> 2 = None"
  by code_simp

end
